theory Spec2Isabelle
  imports Main
begin

section \<open>Python string primitives\<close>

text \<open>
  A Python \<open>str\<close> is modelled as a \<^typ>\<open>string\<close>; a \<^typ>\<open>char\<close> stands for the code
  point of the same number, so the model covers the strings whose code points are
  below 256. On those, \<open>isspace\<close> and \<open>lower\<close> below are what \<open>str.isspace\<close> and
  \<open>str.lower\<close> compute.
\<close>

definition nl :: string where
  "nl = [CHR 0x0A]"

definition fence :: string where
  "fence = ''```''"

definition isspace :: "char \<Rightarrow> bool" where
  "isspace c =
     (let n = (of_char c :: nat)
      in (9 \<le> n \<and> n \<le> 13) \<or> (28 \<le> n \<and> n \<le> 32) \<or> n = 133 \<or> n = 160)"

definition lower_char :: "char \<Rightarrow> char" where
  "lower_char c =
     (let n = (of_char c :: nat)
      in if (65 \<le> n \<and> n \<le> 90) \<or> (192 \<le> n \<and> n \<le> 222 \<and> n \<noteq> 215)
         then char_of (n + 32) else c)"

definition lower :: "string \<Rightarrow> string" where
  "lower s = map lower_char s"

definition lstrip :: "string \<Rightarrow> string" where
  "lstrip s = dropWhile isspace s"

definition rstrip :: "string \<Rightarrow> string" where
  "rstrip s = rev (dropWhile isspace (rev s))"

definition strip :: "string \<Rightarrow> string" where
  "strip s = lstrip (rstrip s)"

definition startswith :: "string \<Rightarrow> string \<Rightarrow> bool" where
  "startswith s p = (take (length p) s = p)"

text \<open>\<open>sep.join(xs)\<close>\<close>

fun join :: "string \<Rightarrow> string list \<Rightarrow> string" where
  "join sep [] = []"
| "join sep [x] = x"
| "join sep (x # y # ys) = x @ sep @ join sep (y # ys)"

text \<open>
  \<open>s.partition(c)\<close> for a one-character separator: the part before the first
  occurrence, the separator if it occurs, and the part after it.
\<close>

definition partition_str :: "string \<Rightarrow> char \<Rightarrow> string \<times> string \<times> string" where
  "partition_str s c =
     (takeWhile (\<lambda>x. x \<noteq> c) s,
      (if c \<in> set s then [c] else []),
      drop 1 (dropWhile (\<lambda>x. x \<noteq> c) s))"

section \<open>Reading a text file\<close>

text \<open>
  \<open>open(filename, "rt")\<close> reads with universal newlines: \<open>\r\n\<close> and a lone \<open>\r\<close>
  reach the program as \<open>\n\<close>. Iterating over the file yields the lines, each with
  its terminating \<open>\n\<close>, the last one without it when the text does not end in one.
\<close>

fun universal_newlines :: "string \<Rightarrow> string" where
  "universal_newlines [] = []"
| "universal_newlines (c # s) =
     (if c = CHR 0x0D then
        (case s of
           [] \<Rightarrow> nl
         | d # t \<Rightarrow> if d = CHR 0x0A then CHR 0x0A # universal_newlines t
                    else CHR 0x0A # universal_newlines s)
      else c # universal_newlines s)"

fun iter_lines :: "string \<Rightarrow> string \<Rightarrow> string list" where
  "iter_lines cur [] = (if cur = [] then [] else [cur])"
| "iter_lines cur (c # s) =
     (if c = CHR 0x0A then (cur @ [c]) # iter_lines [] s else iter_lines (cur @ [c]) s)"

definition readlines :: "string \<Rightarrow> string list" where
  "readlines contents = iter_lines [] (universal_newlines contents)"

section \<open>lostutils/style.py\<close>

text \<open>
  The exceptions: \<open>AttributeError\<close> is what \<open>None.strip()\<close> raises, \<open>IndexError\<close>
  is an index into an empty list, \<open>FormatError\<close> is the in-process formatter rejecting its input,
  \<open>ExternalInvocationFailure\<close> is \<open>subprocess.run\<close> failing to start the
  toolchain, \<open>FileNotFoundError\<close> is \<open>open\<close> on a missing file.
\<close>

datatype error =
    AttributeError
  | IndexError
  | FormatError string
  | ExternalInvocationFailure string
  | FileNotFoundError string

text \<open>
  The two collaborators of \<open>format_str\<close> are parameters of the model:
  \<open>black\<close> is \<open>\<lambda>src. black.format_str(src, mode=black.Mode())\<close>, and
  \<open>styler image src\<close> is the decoded standard output of the \<open>docker run\<close> of
  \<open>styler::style_text\<close> in \<open>image\<close> on the input \<open>src\<close>. Either may raise.
\<close>

type_synonym formatter = "string \<Rightarrow> error + string"
type_synonym r_toolchain = "string \<Rightarrow> string \<Rightarrow> error + string"

definition format_str ::
  "formatter \<Rightarrow> r_toolchain \<Rightarrow> string \<Rightarrow> string \<Rightarrow> string \<Rightarrow> error + string" where
  "format_str black styler src_string parameters r_docker_image =
     (let parameters = lower (strip parameters) in
      if startswith parameters ''py'' then
        (case black src_string of
           Inl e \<Rightarrow> Inl e
         | Inr formatted \<Rightarrow> Inr (join nl [fence @ parameters, rstrip formatted, fence]))
      else if startswith parameters ''r'' then
        (case styler r_docker_image src_string of
           Inl e \<Rightarrow> Inl e
         | Inr stdout \<Rightarrow> Inr (join nl [fence @ parameters, rstrip stdout, fence]))
      else Inr (join nl [fence @ parameters, src_string, fence]))"

record fence_state =
  is_in_fence :: bool
  fence_parameters :: "string option"
  fenced_lines :: "string list"
  final_lines :: "string list"

definition init_state :: fence_state where
  "init_state =
     \<lparr>is_in_fence = False, fence_parameters = None, fenced_lines = [], final_lines = []\<rparr>"

text \<open>One iteration of the loop of \<open>format_file\<close> on the line read from the file.\<close>

definition scan_line ::
  "formatter \<Rightarrow> r_toolchain \<Rightarrow> string \<Rightarrow> fence_state \<Rightarrow> string \<Rightarrow> error + fence_state" where
  "scan_line black styler r_docker_image st raw =
     (let line = rstrip raw in
      if startswith line fence then
        (if is_in_fence st then
           (case (case fence_parameters st of
                    None \<Rightarrow> Inl AttributeError
                  | Some p \<Rightarrow>
                      format_str black styler (join nl (fenced_lines st)) p r_docker_image) of
              Inl e \<Rightarrow> Inl e
            | Inr block \<Rightarrow>
                Inr (st\<lparr>final_lines := final_lines st @ [block],
                        is_in_fence := False,
                        fenced_lines := [],
                        fence_parameters := None\<rparr>))
         else Inr (st\<lparr>is_in_fence := True, fence_parameters := Some (drop 3 (strip line))\<rparr>))
      else if is_in_fence st then Inr (st\<lparr>fenced_lines := fenced_lines st @ [line]\<rparr>)
      else Inr (st\<lparr>final_lines := final_lines st @ [rstrip line]\<rparr>))"

text \<open>The loop: the first exception ends it.\<close>

fun scan_lines ::
  "formatter \<Rightarrow> r_toolchain \<Rightarrow> string \<Rightarrow> fence_state \<Rightarrow> string list \<Rightarrow> error + fence_state" where
  "scan_lines black styler r_docker_image st [] = Inr st"
| "scan_lines black styler r_docker_image st (raw # rest) =
     (case scan_line black styler r_docker_image st raw of
        Inl e \<Rightarrow> Inl e
      | Inr st' \<Rightarrow> scan_lines black styler r_docker_image st' rest)"

text \<open>
  The file system is a map from file names to the text of the files.
\<close>

type_synonym filesystem = "string \<rightharpoonup> string"

definition format_file ::
  "formatter \<Rightarrow> r_toolchain \<Rightarrow> filesystem \<Rightarrow> string \<Rightarrow> string \<Rightarrow> error + string" where
  "format_file black styler fs filename r_docker_image =
     (case fs filename of
        None \<Rightarrow> Inl (FileNotFoundError filename)
      | Some contents \<Rightarrow>
          (case scan_lines black styler r_docker_image init_state (readlines contents) of
             Inl e \<Rightarrow> Inl e
           | Inr st \<Rightarrow> Inr (rstrip (join nl (final_lines st)) @ nl)))"

section \<open>lostutils/cli.py\<close>

text \<open>
  \<open>style_command\<close> after \<open>expand_and_filter_filenames\<close>: for each file name,
  \<open>format_file\<close> and then \<open>print(fixed_md, file=outfile)\<close> on the file opened for
  writing, which writes the text and one more newline. An exception leaves the
  loop; the result is the file system at that moment and the exception, if any.
\<close>

fun style_command ::
  "formatter \<Rightarrow> r_toolchain \<Rightarrow> filesystem \<Rightarrow> string list \<Rightarrow> string \<Rightarrow> filesystem \<times> error option" where
  "style_command black styler fs [] docker_r = (fs, None)"
| "style_command black styler fs (filename # rest) docker_r =
     (case format_file black styler fs filename docker_r of
        Inl e \<Rightarrow> (fs, Some e)
      | Inr fixed_md \<Rightarrow> style_command black styler (fs(filename \<mapsto> fixed_md @ nl)) rest docker_r)"

section \<open>tests/test_samples.py\<close>

text \<open>A dict is an association list in insertion order, with distinct keys.\<close>

type_synonym query_dict = "(string \<times> string list) list"

record CodeBlock =
  language :: string
  code :: string
  options :: query_dict
  location :: string

text \<open>
  A node of the syntax tree that \<open>mistune\<close> returns: its \<open>"type"\<close>, its
  \<open>"info"\<close> (which may be \<open>None\<close>) and its \<open>"text"\<close>.
\<close>

record elt =
  elt_type :: string
  elt_info :: "string option"
  elt_text :: string

text \<open>
  \<open>named_blocks[name].append(block)\<close> on a \<open>defaultdict(list)\<close>: a new key goes to
  the end, an old key keeps its place.
\<close>

fun named_append ::
  "string \<Rightarrow> CodeBlock \<Rightarrow> (string \<times> CodeBlock list) list \<Rightarrow> (string \<times> CodeBlock list) list" where
  "named_append name block [] = [(name, [block])]"
| "named_append name block ((k, bs) # rest) =
     (if k = name then (k, bs @ [block]) # rest else (k, bs) # named_append name block rest)"

text \<open>
  Lines 81 to 97: the name and the block of a \<open>block_code\<close> node. The query
  string parser \<open>urllib.parse.parse_qs\<close> is a parameter.
\<close>

definition read_block ::
  "(string \<Rightarrow> query_dict) \<Rightarrow> string \<Rightarrow> elt \<Rightarrow> error + (string \<times> CodeBlock)" where
  "read_block parse_qs loc e =
     (let language = (case elt_info e of None \<Rightarrow> [] | Some i \<Rightarrow> if i = [] then [] else i);
          language = lower language;
          (language, _, opts) = partition_str language (CHR ''?'')
      in case (if opts \<noteq> [] then
                 (let doptions = parse_qs opts
                  in case (case map_of doptions ''example'' of None \<Rightarrow> [[]] | Some vs \<Rightarrow> vs) of
                       [] \<Rightarrow> Inl IndexError
                     | name # _ \<Rightarrow> Inr (doptions, name))
               else Inr ([], [])) of
           Inl err \<Rightarrow> Inl err
         | Inr (doptions, name) \<Rightarrow>
             Inr (name,
                  \<lparr>language = language, code = elt_text e, options = doptions, location = loc\<rparr>))"

text \<open>The first loop, on the pair of \<open>named_blocks\<close> and \<open>unnamed_blocks\<close>.\<close>

fun scan_ast ::
  "(string \<Rightarrow> query_dict) \<Rightarrow> string \<Rightarrow> (string \<times> CodeBlock list) list \<times> CodeBlock list \<Rightarrow>
   elt list \<Rightarrow> error + ((string \<times> CodeBlock list) list \<times> CodeBlock list)" where
  "scan_ast parse_qs loc (named_blocks, unnamed_blocks) [] = Inr (named_blocks, unnamed_blocks)"
| "scan_ast parse_qs loc (named_blocks, unnamed_blocks) (e # rest) =
     (if elt_type e = ''block_code'' then
        (case read_block parse_qs loc e of
           Inl err \<Rightarrow> Inl err
         | Inr (name, block) \<Rightarrow>
             if name \<noteq> [] then
               scan_ast parse_qs loc (named_append name block named_blocks, unnamed_blocks) rest
             else scan_ast parse_qs loc (named_blocks, unnamed_blocks @ [block]) rest)
      else scan_ast parse_qs loc (named_blocks, unnamed_blocks) rest)"

text \<open>The second loop, over \<open>named_blocks.values()\<close>.\<close>

fun merge_named :: "string \<Rightarrow> CodeBlock list \<Rightarrow> CodeBlock list list \<Rightarrow> error + CodeBlock list" where
  "merge_named loc unnamed_blocks [] = Inr unnamed_blocks"
| "merge_named loc unnamed_blocks (block_of_blocks # rest) =
     (case block_of_blocks of
        [] \<Rightarrow> Inl IndexError
      | first # _ \<Rightarrow>
          merge_named loc
            (unnamed_blocks @
               [\<lparr>language = language first,
                 code = join (nl @ nl) (map code block_of_blocks),
                 options = options first,
                 location = loc\<rparr>])
            rest)"

text \<open>\<open>markdown\<close> is the \<open>mistune\<close> parser with the \<open>AstRenderer\<close>, a parameter.\<close>

definition get_top_level_block_codes ::
  "(string \<Rightarrow> elt list) \<Rightarrow> (string \<Rightarrow> query_dict) \<Rightarrow> string \<Rightarrow> string \<Rightarrow> error + CodeBlock list" where
  "get_top_level_block_codes markdown parse_qs mark loc =
     (case scan_ast parse_qs loc ([], []) (markdown mark) of
        Inl err \<Rightarrow> Inl err
      | Inr (named_blocks, unnamed_blocks) \<Rightarrow>
          merge_named loc unnamed_blocks (map snd named_blocks))"

subsection \<open>The query string parser\<close>

text \<open>
  \<open>urllib.parse.parse_qs\<close> with its default arguments (fields separated by \<open>&\<close>,
  blank values dropped, no strict parsing), on the strings whose percent escapes
  stand for code points below 256: the escape of an ASCII byte, or the escapes of
  the two bytes of a UTF-8 sequence with lead byte \<open>0xC2\<close> or \<open>0xC3\<close>. Any other
  escape of a byte above \<open>0x7F\<close>, which Python decodes into a code point that a
  \<^typ>\<open>char\<close> cannot hold, is outside this model and is left as it is written.
\<close>

fun split_on :: "char \<Rightarrow> string \<Rightarrow> string list" where
  "split_on c [] = [[]]"
| "split_on c (x # xs) =
     (if x = c then [] # split_on c xs
      else (case split_on c xs of [] \<Rightarrow> [[x]] | r # rs \<Rightarrow> (x # r) # rs))"

definition hex_digit :: "char \<Rightarrow> nat option" where
  "hex_digit c =
     (let n = (of_char c :: nat)
      in if 48 \<le> n \<and> n \<le> 57 then Some (n - 48)
         else if 97 \<le> n \<and> n \<le> 102 then Some (n - 87)
         else if 65 \<le> n \<and> n \<le> 70 then Some (n - 55)
         else None)"

text \<open>
  The code point of the UTF-8 sequence of the byte \<open>lead\<close> and the byte of the
  escape \<open>c a b\<close> that follows it, when that is a code point below 256.
\<close>

definition utf8_pair :: "nat \<Rightarrow> char \<Rightarrow> char \<Rightarrow> char \<Rightarrow> char option" where
  "utf8_pair lead c a b =
     (if c = CHR ''%'' \<and> (lead = 194 \<or> lead = 195) then
        (case (hex_digit a, hex_digit b) of
           (Some h, Some l) \<Rightarrow>
             if 128 \<le> 16 * h + l \<and> 16 * h + l < 192
             then Some (char_of ((lead - 192) * 64 + (16 * h + l - 128)))
             else None
         | _ \<Rightarrow> None)
      else None)"

fun unquote :: "string \<Rightarrow> string" where
  "unquote (c # a # b # s) =
     (if c = CHR ''%'' then
        (case (hex_digit a, hex_digit b) of
           (Some h, Some l) \<Rightarrow>
             if 16 * h + l < 128 then char_of (16 * h + l) # unquote s
             else
               (case s of
                  c' # a' # b' # s' \<Rightarrow>
                    (case utf8_pair (16 * h + l) c' a' b' of
                       Some ch \<Rightarrow> ch # unquote s'
                     | None \<Rightarrow> c # unquote (a # b # s))
                | _ \<Rightarrow> c # unquote (a # b # s))
         | _ \<Rightarrow> c # unquote (a # b # s))
      else c # unquote (a # b # s))"
| "unquote s = s"

definition plus_to_space :: "string \<Rightarrow> string" where
  "plus_to_space s = map (\<lambda>c. if c = CHR ''+'' then CHR '' '' else c) s"

fun parse_qsl :: "string list \<Rightarrow> (string \<times> string) list" where
  "parse_qsl [] = []"
| "parse_qsl (name_value # rest) =
     (if name_value = [] then parse_qsl rest
      else
        (let (n, sep, v) = partition_str name_value (CHR ''='')
         in if sep = [] then parse_qsl rest
            else if v \<noteq> [] then
              (unquote (plus_to_space n), unquote (plus_to_space v)) # parse_qsl rest
            else parse_qsl rest))"

fun dict_append :: "string \<Rightarrow> string \<Rightarrow> query_dict \<Rightarrow> query_dict" where
  "dict_append name v [] = [(name, [v])]"
| "dict_append name v ((k, vs) # rest) =
     (if k = name then (k, vs @ [v]) # rest else (k, vs) # dict_append name v rest)"

definition urllib_parse_qs :: "string \<Rightarrow> query_dict" where
  "urllib_parse_qs qs = foldl (\<lambda>d (name, v). dict_append name v d) [] (parse_qsl (split_on (CHR ''&'') qs))"

section \<open>Collaborators for the concrete instances\<close>

text \<open>
  A formatter that returns its input, one that rejects every input, and a
  toolchain that prints its input: the concrete instances below run on them.
\<close>

definition echo_formatter :: formatter where
  "echo_formatter src = Inr src"

definition rejecting_formatter :: formatter where
  "rejecting_formatter src = Inl (FormatError src)"

definition echo_toolchain :: r_toolchain where
  "echo_toolchain r_docker_image src = Inr src"

text \<open>
  A batch of two files: the Python block of \<open>bad.md\<close> is one that the formatter
  rejects, \<open>good.md\<close> has no fence.
\<close>

definition sample_batch :: filesystem where
  "sample_batch =
     [''bad.md'' \<mapsto> fence @ ''py'' @ nl @ ''x ='' @ nl @ fence @ nl,
      ''good.md'' \<mapsto> ''text  '' @ nl]"

definition sample_file :: filesystem where
  "sample_file = [''doc.md'' \<mapsto> ''a'' @ nl]"

section \<open>The extraction, as the specification words it\<close>

text \<open>
  The fenced blocks of a syntax tree in document order, each with its example
  name (empty when it has none).
\<close>

definition block_entries ::
  "(string \<Rightarrow> query_dict) \<Rightarrow> string \<Rightarrow> elt list \<Rightarrow> (string \<times> CodeBlock) list" where
  "block_entries parse_qs loc ast =
     concat (map (\<lambda>e. if elt_type e = ''block_code''
                         then (case read_block parse_qs loc e of Inl err \<Rightarrow> [] | Inr nb \<Rightarrow> [nb])
                         else []) ast)"

definition unnamed_of :: "(string \<times> CodeBlock) list \<Rightarrow> CodeBlock list" where
  "unnamed_of entries = map snd (filter (\<lambda>nb. fst nb = []) entries)"

text \<open>The members of a named group, in the order of the scan.\<close>

definition members :: "string \<Rightarrow> (string \<times> CodeBlock) list \<Rightarrow> CodeBlock list" where
  "members name entries = map snd (filter (\<lambda>nb. fst nb = name) entries)"

text \<open>The distinct elements of a list, each at the place of its first occurrence.\<close>

definition first_occurrences :: "'a list \<Rightarrow> 'a list" where
  "first_occurrences xs = rev (remdups (rev xs))"

definition group_names :: "(string \<times> CodeBlock) list \<Rightarrow> string list" where
  "group_names entries = first_occurrences (filter (\<lambda>name. name \<noteq> []) (map fst entries))"

text \<open>
  The block of a named group: the codes of the members joined with a blank line,
  language, options and location of the first member.
\<close>

definition merged_block :: "(string \<times> CodeBlock) list \<Rightarrow> string \<Rightarrow> CodeBlock" where
  "merged_block entries name =
     \<lparr>language = language (hd (members name entries)),
      code = join (nl @ nl) (map code (members name entries)),
      options = options (hd (members name entries)),
      location = location (hd (members name entries))\<rparr>"

text \<open>One step of the first loop, on an entry.\<close>

definition add_entry ::
  "(string \<times> CodeBlock list) list \<times> CodeBlock list \<Rightarrow> string \<times> CodeBlock \<Rightarrow>
   (string \<times> CodeBlock list) list \<times> CodeBlock list" where
  "add_entry acc nb =
     (if fst nb \<noteq> [] then (named_append (fst nb) (snd nb) (fst acc), snd acc)
      else (fst acc, snd acc @ [snd nb]))"

text \<open>
  What the extraction needs of the query string parser: the list of values it
  gives for \<open>example\<close> is never empty. \<open>urllib.parse.parse_qs\<close> gives every name it
  returns at least one value.
\<close>

definition example_values_nonempty :: "(string \<Rightarrow> query_dict) \<Rightarrow> bool" where
  "example_values_nonempty parse_qs =
     (\<forall>s vs. map_of (parse_qs s) ''example'' = Some vs \<longrightarrow> vs \<noteq> [])"

text \<open>\<open>elt.get("info") or ""\<close>\<close>

definition info_or_empty :: "elt \<Rightarrow> string" where
  "info_or_empty e = (case elt_info e of None \<Rightarrow> [] | Some i \<Rightarrow> i)"

text \<open>
  Three syntax trees: a document with two blocks of the group \<open>a\<close> around a
  paragraph, a block without a name and a block of the group \<open>b\<close>; the same
  document with other letter case in the headers; a document whose only block
  names its group with a percent escape.
\<close>

definition sample_ast :: "elt list" where
  "sample_ast =
     [\<lparr>elt_type = ''block_code'', elt_info = Some ''py?example=a'', elt_text = ''x = 1'' @ nl\<rparr>,
      \<lparr>elt_type = ''paragraph'', elt_info = None, elt_text = ''plain text''\<rparr>,
      \<lparr>elt_type = ''block_code'', elt_info = None, elt_text = ''echo'' @ nl\<rparr>,
      \<lparr>elt_type = ''block_code'', elt_info = Some ''r?skip=true&example=b'', elt_text = ''z <- 3'' @ nl\<rparr>,
      \<lparr>elt_type = ''block_code'', elt_info = Some ''py?example=a'', elt_text = ''y = 2'' @ nl\<rparr>]"

definition sample_ast_upper :: "elt list" where
  "sample_ast_upper =
     [\<lparr>elt_type = ''block_code'', elt_info = Some ''Py?example=A'', elt_text = ''x = 1'' @ nl\<rparr>,
      \<lparr>elt_type = ''paragraph'', elt_info = None, elt_text = ''plain text''\<rparr>,
      \<lparr>elt_type = ''block_code'', elt_info = Some [], elt_text = ''echo'' @ nl\<rparr>,
      \<lparr>elt_type = ''block_code'', elt_info = Some ''R?Skip=True&EXAMPLE=b'', elt_text = ''z <- 3'' @ nl\<rparr>,
      \<lparr>elt_type = ''block_code'', elt_info = Some ''py?example=a'', elt_text = ''y = 2'' @ nl\<rparr>]"

definition escaped_ast :: "elt list" where
  "escaped_ast =
     [\<lparr>elt_type = ''block_code'', elt_info = Some ''py?example=%41'', elt_text = ''x = 1'' @ nl\<rparr>]"

definition sample_markdown :: "string \<Rightarrow> elt list" where
  "sample_markdown mark =
     (if mark = ''upper'' then sample_ast_upper
      else if mark = ''escaped'' then escaped_ast
      else sample_ast)"

text \<open>
  A block made from a lower-cased header: its language is in lower case, and its
  options are empty or what the parser returns for a string in lower case.
\<close>

definition from_lowercase_header :: "(string \<Rightarrow> query_dict) \<Rightarrow> CodeBlock \<Rightarrow> bool" where
  "from_lowercase_header parse_qs b =
     (lower (language b) = language b \<and>
      (options b = [] \<or> (\<exists>opts. lower opts = opts \<and> options b = parse_qs opts)))"

section \<open>Files that the rewrite leaves as they are\<close>

text \<open>
  A file in canonical passthrough form, read line by line with the fence state
  (inside a fence or not, and whether the fence has a body line yet): every
  opening line carries a header that is already stripped and in lower case and
  that starts neither with \<open>py\<close> nor with \<open>r\<close>, every closing line is the bare
  marker, every fence has a body line, and the last fence is closed.
\<close>

fun passthrough_canonical :: "bool \<Rightarrow> bool \<Rightarrow> string list \<Rightarrow> bool" where
  "passthrough_canonical in_fence has_body [] = (\<not> in_fence)"
| "passthrough_canonical in_fence has_body (raw # rest) =
     (let line = rstrip raw in
      if startswith line fence then
        (if in_fence then has_body \<and> line = fence \<and> passthrough_canonical False False rest
         else
           (let p = drop 3 (strip line)
            in lower (strip p) = p \<and> \<not> startswith p ''py'' \<and> \<not> startswith p ''r'' \<and>
               passthrough_canonical True False rest))
      else passthrough_canonical in_fence in_fence rest)"

text \<open>The lines of a text, each with its newline.\<close>

definition unlines :: "string list \<Rightarrow> string" where
  "unlines xs = concat (map (\<lambda>l. l @ nl) xs)"

text \<open>A file with a fence whose header is not in lower case.\<close>

definition sample_bash :: filesystem where
  "sample_bash = [''b.md'' \<mapsto> fence @ ''Bash'' @ nl @ ''ls'' @ nl @ fence @ nl]"
text \<open>A file in canonical passthrough form, with white space to trim.\<close>

definition sample_canonical :: string where
  "sample_canonical =
     ''text  '' @ nl @ fence @ ''bash'' @ nl @ ''ls -l '' @ nl @ fence @ nl @ ''more'' @ nl @ nl"

section \<open>A second pass over the output\<close>

text \<open>
  A line that the scanner collects inside a fence: a right-trimmed line of a file
  that does not start with the fence marker.
\<close>

definition body_ok :: "string \<Rightarrow> bool" where
  "body_ok l =
     (CHR 0x0A \<notin> set l \<and> CHR 0x0D \<notin> set l \<and> rstrip l = l \<and> \<not> startswith l fence)"

text \<open>The code that the scanner collects from the body \<open>text\<close> of a block of its output.\<close>

definition reread :: "string \<Rightarrow> string" where
  "reread text = join nl (map rstrip (readlines (text @ nl)))"

text \<open>
  An item of the output that a second pass reproduces: it has no white space at its
  end, and the scan of its lines outside a fence appends it to the output.
\<close>

definition replays :: "formatter \<Rightarrow> r_toolchain \<Rightarrow> string \<Rightarrow> string \<Rightarrow> bool" where
  "replays B S img item =
     (rstrip item = item \<and>
      (\<forall>out. scan_lines B S img
               \<lparr>is_in_fence = False, fence_parameters = None, fenced_lines = [], final_lines = out\<rparr>
               (readlines (item @ nl)) =
             Inr \<lparr>is_in_fence = False, fence_parameters = None, fenced_lines = [],
                  final_lines = out @ [item]\<rparr>))"

text \<open>A line as the file iterator yields it: no carriage return, a newline only at its end.\<close>

definition line_ok :: "string \<Rightarrow> bool" where
  "line_ok raw = (CHR 0x0D \<notin> set raw \<and> CHR 0x0A \<notin> set (butlast raw))"

text \<open>
  The fenced blocks of a file as the scanner delimits them: the header and the code
  of every fence that is closed, in the order of the file. \<open>opened\<close> is the header
  of the fence that is open, if one is, and \<open>body\<close> its lines so far.
\<close>

fun fenced_blocks :: "string option \<Rightarrow> string list \<Rightarrow> string list \<Rightarrow> (string \<times> string) list" where
  "fenced_blocks opened body [] = []"
| "fenced_blocks opened body (raw # rest) =
     (let line = rstrip raw in
      if startswith line fence then
        (case opened of
           Some p \<Rightarrow> (p, join nl body) # fenced_blocks None [] rest
         | None \<Rightarrow> fenced_blocks (Some (drop 3 (strip line))) [] rest)
      else
        (case opened of
           Some p \<Rightarrow> fenced_blocks opened (body @ [line]) rest
         | None \<Rightarrow> fenced_blocks None [] rest))"

text \<open>
  A formatted text that a second pass leaves as it is: no line of the right-trimmed
  text starts with the fence marker, and the formatter, on what the scanner rereads
  of it, returns the same right-trimmed text.
\<close>

definition rescans :: "formatter \<Rightarrow> string \<Rightarrow> bool" where
  "rescans f out =
     (list_all (\<lambda>l. \<not> startswith (rstrip l) fence) (readlines (rstrip out @ nl)) \<and>
      (case f (reread (rstrip out)) of Inl e \<Rightarrow> False | Inr out' \<Rightarrow> rstrip out' = rstrip out))"

text \<open>
  A block whose formatting is stable under the scan: what its formatter returns for
  its code, if the header sends it to a formatter and the formatter returns, is a
  text that a second pass leaves as it is. The branches are those of \<open>format_str\<close>;
  a block of another language needs nothing.
\<close>

definition block_stable :: "formatter \<Rightarrow> r_toolchain \<Rightarrow> string \<Rightarrow> string \<Rightarrow> string \<Rightarrow> bool" where
  "block_stable black styler r_docker_image parameters src_string =
     (let parameters = lower (strip parameters) in
      if startswith parameters ''py'' then
        (case black src_string of Inl e \<Rightarrow> True | Inr formatted \<Rightarrow> rescans black formatted)
      else if startswith parameters ''r'' then
        (case styler r_docker_image src_string of
           Inl e \<Rightarrow> True
         | Inr stdout \<Rightarrow> rescans (styler r_docker_image) stdout)
      else True)"

text \<open>A file all of whose fenced blocks are stable under the scan.\<close>

definition formats_stably :: "formatter \<Rightarrow> r_toolchain \<Rightarrow> string \<Rightarrow> string \<Rightarrow> bool" where
  "formats_stably black styler r_docker_image contents =
     list_all (\<lambda>(p, src). block_stable black styler r_docker_image p src)
       (fenced_blocks None [] (readlines contents))"

text \<open>
  The answers of \<open>black\<close> on a module that is one docstring whose middle line is an
  indented fence marker: the docstring comes back without the indentation, the
  result comes back as it is, and the opening quotes alone are rejected. A file
  whose Python block is that module.
\<close>

definition triple_quote :: string where
  "triple_quote = [CHR 0x22, CHR 0x22, CHR 0x22]"

definition docstring_black :: formatter where
  "docstring_black src =
     (if src = triple_quote @ nl @ '' '' @ fence @ nl @ triple_quote \<or>
         src = triple_quote @ nl @ fence @ nl @ triple_quote \<or>
         src = triple_quote @ nl @ fence @ nl @ triple_quote @ nl
      then Inr (triple_quote @ nl @ fence @ nl @ triple_quote @ nl)
      else Inl (FormatError src))"

definition sample_docstring :: filesystem where
  "sample_docstring =
     [''d.md'' \<mapsto>
        fence @ ''py'' @ nl @ triple_quote @ nl @ '' '' @ fence @ nl @ triple_quote @ nl @
        fence @ nl]"

text \<open>
  A formatter that knows one assignment, and a file with a Python block, an R
  block and a block of another language.
\<close>

definition sample_black :: formatter where
  "sample_black src =
     (if src = ''x=1'' \<or> src = ''x = 1'' then Inr (''x = 1'' @ nl) else Inl (FormatError src))"

definition sample_mixed_text :: string where
  "sample_mixed_text =
     ''Some text'' @ nl @ fence @ ''py'' @ nl @ ''x=1'' @ nl @ fence @ nl @
     ''More text  '' @ nl @ fence @ ''R'' @ nl @ ''y <- 2 '' @ nl @ fence @ nl @
     fence @ ''Bash'' @ nl @ ''ls'' @ nl @ fence @ nl @ nl"

definition sample_mixed :: filesystem where
  "sample_mixed = [''m.md'' \<mapsto> sample_mixed_text]"

section \<open>Properties\<close>

subsection \<open>The loops, piecewise\<close>

lemma scan_lines_append:
  "scan_lines B S img st (xs @ ys) =
     (case scan_lines B S img st xs of Inl e \<Rightarrow> Inl e | Inr st' \<Rightarrow> scan_lines B S img st' ys)"
  by (induction xs arbitrary: st) (auto split: sum.splits)

lemma style_command_append:
  "style_command B S fs (xs @ ys) img =
     (case style_command B S fs xs img of
        (fs', None) \<Rightarrow> style_command B S fs' ys img
      | (fs', Some e) \<Rightarrow> (fs', Some e))"
  by (induction xs arbitrary: fs) (auto split: sum.splits)

text \<open>Inside a fence the header is set, so \<open>format_str\<close> never receives \<open>None\<close>.\<close>

lemma scan_line_params:
  assumes "scan_line B S img st raw = Inr st'" "is_in_fence st \<longrightarrow> fence_parameters st \<noteq> None"
  shows "is_in_fence st' \<longrightarrow> fence_parameters st' \<noteq> None"
  using assms by (auto simp: scan_line_def Let_def split: if_splits sum.splits option.splits)

lemma scan_lines_params:
  assumes "scan_lines B S img st ls = Inr st'" "is_in_fence st \<longrightarrow> fence_parameters st \<noteq> None"
  shows "is_in_fence st' \<longrightarrow> fence_parameters st' \<noteq> None"
  using assms
proof (induction ls arbitrary: st)
  case Nil
  then show ?case by simp
next
  case (Cons raw ls)
  then obtain st1 where s1: "scan_line B S img st raw = Inr st1"
    and rest: "scan_lines B S img st1 ls = Inr st'"
    by (auto split: sum.splits)
  from scan_line_params[OF s1 Cons.prems(2)] Cons.IH[OF rest] show ?case by blast
qed

subsection \<open>Formatter dispatch\<close>

text \<open>
  C5, as the code has it. A header whose stripped, lower-cased form starts neither
  with \<open>py\<close> nor with \<open>r\<close> is a passthrough: the code is returned unchanged between
  the fence markers, and the opening marker carries the stripped, lower-cased
  header.
\<close>

theorem format_str_passthrough:
  assumes "\<not> startswith (lower (strip parameters)) ''py''"
    and "\<not> startswith (lower (strip parameters)) ''r''"
  shows "format_str black styler src_string parameters r_docker_image =
           Inr (fence @ lower (strip parameters) @ nl @ src_string @ nl @ fence)"
  using assms by (simp add: format_str_def)

theorem format_str_passthrough_witness:
  "\<not> startswith (lower (strip '' Bash'')) ''py'' \<and> \<not> startswith (lower (strip '' Bash'')) ''r'' \<and>
   format_str echo_formatter echo_toolchain ''x'' '' Bash'' ''img'' =
     Inr (fence @ ''bash'' @ nl @ ''x'' @ nl @ fence)"
proof -
  have a: "\<not> startswith (lower (strip '' Bash'')) ''py''" by code_simp
  have b: "\<not> startswith (lower (strip '' Bash'')) ''r''" by code_simp
  have c: "lower (strip '' Bash'') = ''bash''" by code_simp
  from format_str_passthrough[OF a b, of echo_formatter echo_toolchain "''x''" "''img''"] a b c
  show ?thesis by simp
qed

text \<open>
  C5, as the specification states it, fails: on the header \<open>Bash\<close> the opening
  marker of the result is not the original header.
\<close>

theorem format_str_original_header_counterexample:
  "\<not> startswith (lower (strip ''Bash'')) ''py'' \<and> \<not> startswith (lower (strip ''Bash'')) ''r'' \<and>
   format_str echo_formatter echo_toolchain ''x'' ''Bash'' ''img'' \<noteq>
     Inr (fence @ ''Bash'' @ nl @ ''x'' @ nl @ fence)"
  by code_simp

subsection \<open>The fence scanner\<close>

text \<open>
  C3. In a state that the scanner reaches, a line that starts with three backticks
  closes the fence when \<open>is_in_fence\<close> holds: the accumulated block goes through
  \<open>format_str\<close>, its text is appended to the output and the fence state is reset
  (or the formatter's exception leaves the loop); no nested fence starts. When
  \<open>is_in_fence\<close> does not hold, the same line closes nothing: it opens a fence and
  the output is unchanged.
\<close>

theorem fence_line_in_fence_closes:
  assumes "scan_lines black styler r_docker_image init_state pre = Inr st"
    and "startswith (rstrip raw) fence"
  shows "(is_in_fence st \<longrightarrow>
            (\<exists>p. fence_parameters st = Some p \<and>
               scan_line black styler r_docker_image st raw =
                 (case format_str black styler (join nl (fenced_lines st)) p r_docker_image of
                    Inl e \<Rightarrow> Inl e
                  | Inr block \<Rightarrow>
                      Inr \<lparr>is_in_fence = False, fence_parameters = None, fenced_lines = [],
                           final_lines = final_lines st @ [block]\<rparr>))) \<and>
         (\<not> is_in_fence st \<longrightarrow>
            scan_line black styler r_docker_image st raw =
              Inr (st\<lparr>is_in_fence := True,
                      fence_parameters := Some (drop 3 (strip (rstrip raw)))\<rparr>))"
proof -
  have inv: "is_in_fence st \<longrightarrow> fence_parameters st \<noteq> None"
    using scan_lines_params[OF assms(1)] by (simp add: init_state_def)
  show ?thesis
  proof (cases "is_in_fence st")
    case True
    with inv obtain p where p: "fence_parameters st = Some p" by auto
    have "scan_line black styler r_docker_image st raw =
            (case format_str black styler (join nl (fenced_lines st)) p r_docker_image of
               Inl e \<Rightarrow> Inl e
             | Inr block \<Rightarrow>
                 Inr \<lparr>is_in_fence = False, fence_parameters = None, fenced_lines = [],
                      final_lines = final_lines st @ [block]\<rparr>)"
      using assms(2) True p
      by (cases st) (simp add: scan_line_def Let_def split: sum.splits)
    with True p show ?thesis by simp
  next
    case False
    with assms(2) show ?thesis by (simp add: scan_line_def Let_def)
  qed
qed

theorem fence_line_in_fence_closes_witness:
  "scan_lines echo_formatter echo_toolchain ''img'' init_state [fence @ ''sh'' @ nl, ''x'' @ nl] =
     Inr \<lparr>is_in_fence = True, fence_parameters = Some ''sh'', fenced_lines = [''x''],
          final_lines = []\<rparr> \<and>
   startswith (rstrip (fence @ ''inner'' @ nl)) fence \<and>
   scan_line echo_formatter echo_toolchain ''img''
     \<lparr>is_in_fence = True, fence_parameters = Some ''sh'', fenced_lines = [''x''],
      final_lines = []\<rparr> (fence @ ''inner'' @ nl) =
     Inr \<lparr>is_in_fence = False, fence_parameters = None, fenced_lines = [],
          final_lines = [fence @ ''sh'' @ nl @ ''x'' @ nl @ fence]\<rparr>"
proof -
  have a: "scan_lines echo_formatter echo_toolchain ''img'' init_state
             [fence @ ''sh'' @ nl, ''x'' @ nl] =
           Inr \<lparr>is_in_fence = True, fence_parameters = Some ''sh'', fenced_lines = [''x''],
                final_lines = []\<rparr>"
    by code_simp
  have b: "startswith (rstrip (fence @ ''inner'' @ nl)) fence" by code_simp
  have c: "format_str echo_formatter echo_toolchain (join nl [''x'']) ''sh'' ''img'' =
           Inr (fence @ ''sh'' @ nl @ ''x'' @ nl @ fence)"
    by code_simp
  from fence_line_in_fence_closes[OF a b] a b c show ?thesis by simp
qed

lemma scan_lines_body:
  assumes "is_in_fence st" and "\<forall>l\<in>set body. \<not> startswith (rstrip l) fence"
  shows "scan_lines B S img st body = Inr (st\<lparr>fenced_lines := fenced_lines st @ map rstrip body\<rparr>)"
  using assms
proof (induction body arbitrary: st)
  case Nil
  then show ?case by simp
next
  case (Cons l body)
  let ?st1 = "st\<lparr>fenced_lines := fenced_lines st @ [rstrip l]\<rparr>"
  from Cons.prems have step: "scan_line B S img st l = Inr ?st1"
    by (simp add: scan_line_def Let_def)
  have "scan_lines B S img ?st1 body =
          Inr (?st1\<lparr>fenced_lines := fenced_lines ?st1 @ map rstrip body\<rparr>)"
    using Cons.prems by (intro Cons.IH) simp_all
  with step show ?case by simp
qed

text \<open>
  C4. A file whose last fence is never closed: the lines before the opening line
  are scanned without error and leave the scanner outside a fence, and no line
  after the opening line starts with three backticks. Then \<open>format_file\<close> returns
  without an exception, and what it returns is made of the output of the lines
  before the opening line alone: the opening line and the body add nothing to it,
  so a file that stops before the opening line gives the same result.
\<close>

theorem unterminated_fence_dropped:
  assumes "fs filename = Some contents"
    and "readlines contents = pre @ opener # body"
    and "scan_lines black styler r_docker_image init_state pre = Inr st"
    and "\<not> is_in_fence st"
    and "startswith (rstrip opener) fence"
    and "\<forall>l\<in>set body. \<not> startswith (rstrip l) fence"
  shows "format_file black styler fs filename r_docker_image =
           Inr (rstrip (join nl (final_lines st)) @ nl) \<and>
         (\<forall>other contents'. fs other = Some contents' \<and> readlines contents' = pre \<longrightarrow>
            format_file black styler fs other r_docker_image =
              format_file black styler fs filename r_docker_image)"
proof -
  let ?st1 = "st\<lparr>is_in_fence := True, fence_parameters := Some (drop 3 (strip (rstrip opener)))\<rparr>"
  have open_step: "scan_line black styler r_docker_image st opener = Inr ?st1"
    using assms(4,5) by (simp add: scan_line_def Let_def)
  have body_steps: "scan_lines black styler r_docker_image ?st1 body =
                      Inr (?st1\<lparr>fenced_lines := fenced_lines ?st1 @ map rstrip body\<rparr>)"
    using assms(6) by (intro scan_lines_body) simp_all
  have "scan_lines black styler r_docker_image init_state (pre @ opener # body) =
          Inr (?st1\<lparr>fenced_lines := fenced_lines ?st1 @ map rstrip body\<rparr>)"
    using assms(3) open_step body_steps by (simp add: scan_lines_append)
  then have main: "format_file black styler fs filename r_docker_image =
                     Inr (rstrip (join nl (final_lines st)) @ nl)"
    using assms(1,2) by (simp add: format_file_def)
  moreover have "format_file black styler fs other r_docker_image =
                   Inr (rstrip (join nl (final_lines st)) @ nl)"
    if "fs other = Some contents'" "readlines contents' = pre" for other contents'
    using that assms(3) by (simp add: format_file_def)
  ultimately show ?thesis by simp
qed

theorem unterminated_fence_dropped_witness:
  "[''f.md'' \<mapsto> ''a'' @ nl @ fence @ ''py'' @ nl @ ''x ='' @ nl, ''g.md'' \<mapsto> ''a'' @ nl] ''f.md'' =
     Some (''a'' @ nl @ fence @ ''py'' @ nl @ ''x ='' @ nl) \<and>
   readlines (''a'' @ nl @ fence @ ''py'' @ nl @ ''x ='' @ nl) =
     [''a'' @ nl] @ (fence @ ''py'' @ nl) # [''x ='' @ nl] \<and>
   scan_lines rejecting_formatter echo_toolchain ''img'' init_state [''a'' @ nl] =
     Inr \<lparr>is_in_fence = False, fence_parameters = None, fenced_lines = [], final_lines = [''a'']\<rparr> \<and>
   startswith (rstrip (fence @ ''py'' @ nl)) fence \<and>
   \<not> startswith (rstrip (''x ='' @ nl)) fence \<and>
   format_file rejecting_formatter echo_toolchain
     [''f.md'' \<mapsto> ''a'' @ nl @ fence @ ''py'' @ nl @ ''x ='' @ nl, ''g.md'' \<mapsto> ''a'' @ nl]
     ''f.md'' ''img'' = Inr (''a'' @ nl) \<and>
   format_file rejecting_formatter echo_toolchain
     [''f.md'' \<mapsto> ''a'' @ nl @ fence @ ''py'' @ nl @ ''x ='' @ nl, ''g.md'' \<mapsto> ''a'' @ nl]
     ''g.md'' ''img'' = Inr (''a'' @ nl)"
proof -
  let ?fs = "[''f.md'' \<mapsto> ''a'' @ nl @ fence @ ''py'' @ nl @ ''x ='' @ nl, ''g.md'' \<mapsto> ''a'' @ nl]"
  let ?st = "\<lparr>is_in_fence = False, fence_parameters = None, fenced_lines = [], final_lines = [''a'']\<rparr>"
  have a: "?fs ''f.md'' = Some (''a'' @ nl @ fence @ ''py'' @ nl @ ''x ='' @ nl)" by simp
  have b: "readlines (''a'' @ nl @ fence @ ''py'' @ nl @ ''x ='' @ nl) =
             [''a'' @ nl] @ (fence @ ''py'' @ nl) # [''x ='' @ nl]"
    by code_simp
  have c: "scan_lines rejecting_formatter echo_toolchain ''img'' init_state [''a'' @ nl] = Inr ?st"
    by code_simp
  have d: "\<not> is_in_fence ?st" by simp
  have e: "startswith (rstrip (fence @ ''py'' @ nl)) fence" by code_simp
  have f: "\<forall>l\<in>set [''x ='' @ nl]. \<not> startswith (rstrip l) fence" by code_simp
  have f': "\<not> startswith (rstrip (''x ='' @ nl)) fence" by code_simp
  have g: "?fs ''g.md'' = Some (''a'' @ nl)" by simp
  have h: "readlines (''a'' @ nl) = [''a'' @ nl]" by code_simp
  have i: "rstrip (join nl [''a'']) @ nl = ''a'' @ nl" by code_simp
  from unterminated_fence_dropped[where fs = ?fs and filename = "''f.md''", OF a b c d e f]
    g h i a b c e f'
  show ?thesis by simp
qed

subsection \<open>What is written back\<close>

lemma rstrip_no_trailing_space: "rstrip s = [] \<or> \<not> isspace (last (rstrip s))"
proof (cases "dropWhile isspace (rev s)")
  case Nil
  then show ?thesis by (simp add: rstrip_def)
next
  case (Cons c cs)
  then have "\<not> isspace c" by (metis hd_dropWhile list.sel(1) list.distinct(1))
  with Cons show ?thesis by (simp add: rstrip_def)
qed

text \<open>
  What \<open>format_file\<close> returns ends in one newline, after text in which no white
  space is last.
\<close>

lemma format_file_one_newline:
  assumes "format_file B S fs filename img = Inr out"
  shows "\<exists>body. out = body @ nl \<and> (body = [] \<or> \<not> isspace (last body))"
  using assms rstrip_no_trailing_space
  by (auto simp: format_file_def split: option.splits sum.splits)

lemma style_command_single:
  "style_command B S fs [filename] img =
     (case format_file B S fs filename img of
        Inl e \<Rightarrow> (fs, Some e)
      | Inr fixed_md \<Rightarrow> (fs(filename \<mapsto> fixed_md @ nl), None))"
  by (simp split: sum.splits)

text \<open>
  C9 on a one-line file. \<open>format_file\<close> returns the line and one newline, and
  \<open>style_command\<close> prints that text with \<open>print\<close>, which writes one more newline:
  the file written back ends in two newlines.
\<close>

theorem style_command_two_newlines:
  "format_file echo_formatter echo_toolchain sample_file ''doc.md'' ''img'' = Inr (''a'' @ nl) \<and>
   fst (style_command echo_formatter echo_toolchain sample_file [''doc.md''] ''img'') ''doc.md'' =
     Some (''a'' @ nl @ nl)"
  by code_simp

subsection \<open>Exceptions\<close>

text \<open>
  C8, as the code has it. When the in-process formatter rejects the code of a
  Python block, the exception is the result of \<open>format_str\<close> and of \<open>format_file\<close>
  and leaves \<open>style_command\<close> as it is. \<open>format_file\<close> runs before the file is
  opened for writing, so the file system is the one the earlier files of the
  batch left: the file of the rejected block is not written, and the files after
  it in the batch are not processed.
\<close>

theorem format_error_propagates:
  assumes "style_command black styler fs earlier docker_r = (fs', None)"
    and "fs' filename = Some contents"
    and "readlines contents = pre @ raw # later_lines"
    and "scan_lines black styler docker_r init_state pre = Inr st"
    and "is_in_fence st"
    and "fence_parameters st = Some p"
    and "startswith (rstrip raw) fence"
    and "startswith (lower (strip p)) ''py''"
    and "black (join nl (fenced_lines st)) = Inl e"
  shows "format_str black styler (join nl (fenced_lines st)) p docker_r = Inl e \<and>
         format_file black styler fs' filename docker_r = Inl e \<and>
         style_command black styler fs (earlier @ filename # rest) docker_r = (fs', Some e)"
proof -
  have fmt: "format_str black styler (join nl (fenced_lines st)) p docker_r = Inl e"
    using assms(8,9) by (simp add: format_str_def)
  have "scan_line black styler docker_r st raw = Inl e"
    using assms(5,6,7) fmt by (simp add: scan_line_def Let_def)
  then have "scan_lines black styler docker_r init_state (pre @ raw # later_lines) = Inl e"
    using assms(4) by (simp add: scan_lines_append)
  then have ffile: "format_file black styler fs' filename docker_r = Inl e"
    using assms(2,3) by (simp add: format_file_def)
  then have "style_command black styler fs (earlier @ filename # rest) docker_r = (fs', Some e)"
    using assms(1) by (simp add: style_command_append)
  with fmt ffile show ?thesis by simp
qed

theorem format_error_propagates_witness:
  "style_command rejecting_formatter echo_toolchain sample_batch [] ''img'' = (sample_batch, None) \<and>
   sample_batch ''bad.md'' = Some (fence @ ''py'' @ nl @ ''x ='' @ nl @ fence @ nl) \<and>
   readlines (fence @ ''py'' @ nl @ ''x ='' @ nl @ fence @ nl) =
     [fence @ ''py'' @ nl, ''x ='' @ nl] @ (fence @ nl) # [] \<and>
   scan_lines rejecting_formatter echo_toolchain ''img'' init_state [fence @ ''py'' @ nl, ''x ='' @ nl] =
     Inr \<lparr>is_in_fence = True, fence_parameters = Some ''py'', fenced_lines = [''x =''],
          final_lines = []\<rparr> \<and>
   startswith (rstrip (fence @ nl)) fence \<and>
   startswith (lower (strip ''py'')) ''py'' \<and>
   rejecting_formatter (join nl [''x ='']) = Inl (FormatError ''x ='') \<and>
   format_str rejecting_formatter echo_toolchain (join nl [''x ='']) ''py'' ''img'' =
     Inl (FormatError ''x ='') \<and>
   format_file rejecting_formatter echo_toolchain sample_batch ''bad.md'' ''img'' =
     Inl (FormatError ''x ='') \<and>
   style_command rejecting_formatter echo_toolchain sample_batch ([] @ ''bad.md'' # [''good.md''])
     ''img'' = (sample_batch, Some (FormatError ''x =''))"
proof -
  let ?st = "\<lparr>is_in_fence = True, fence_parameters = Some ''py'', fenced_lines = [''x =''],
              final_lines = []\<rparr>"
  have a: "style_command rejecting_formatter echo_toolchain sample_batch [] ''img'' =
             (sample_batch, None)"
    by simp
  have b: "sample_batch ''bad.md'' = Some (fence @ ''py'' @ nl @ ''x ='' @ nl @ fence @ nl)"
    by (simp add: sample_batch_def)
  have c: "readlines (fence @ ''py'' @ nl @ ''x ='' @ nl @ fence @ nl) =
             [fence @ ''py'' @ nl, ''x ='' @ nl] @ (fence @ nl) # []"
    by code_simp
  have d: "scan_lines rejecting_formatter echo_toolchain ''img'' init_state
             [fence @ ''py'' @ nl, ''x ='' @ nl] = Inr ?st"
    by code_simp
  have e: "is_in_fence ?st" by simp
  have f: "fence_parameters ?st = Some ''py''" by simp
  have g: "startswith (rstrip (fence @ nl)) fence" by code_simp
  have h: "startswith (lower (strip ''py'')) ''py''" by code_simp
  have i: "rejecting_formatter (join nl (fenced_lines ?st)) = Inl (FormatError ''x ='')"
    by (simp add: rejecting_formatter_def)
  from format_error_propagates[where fs' = sample_batch and filename = "''bad.md''"
      and rest = "[''good.md'']", OF a b c d e f g h i] a b c d g h i
  show ?thesis by simp
qed

text \<open>
  C8, as the specification states it, fails: in the batch of \<open>bad.md\<close> and
  \<open>good.md\<close> the exception of \<open>bad.md\<close> ends the command, and \<open>good.md\<close>, which the
  command rewrites when it is alone in the batch, keeps its old text.
\<close>

theorem batch_stops_counterexample:
  "snd (style_command rejecting_formatter echo_toolchain sample_batch [''bad.md'', ''good.md'']
          ''img'') = Some (FormatError ''x ='') \<and>
   fst (style_command rejecting_formatter echo_toolchain sample_batch [''bad.md'', ''good.md'']
          ''img'') ''good.md'' = Some (''text  '' @ nl) \<and>
   fst (style_command rejecting_formatter echo_toolchain sample_batch [''good.md''] ''img'')
     ''good.md'' = Some (''text'' @ nl @ nl)"
  by code_simp

subsection \<open>Extraction and reassembly\<close>

lemma read_block_total:
  assumes "example_values_nonempty parse_qs"
  shows "\<exists>nb. read_block parse_qs loc e = Inr nb"
proof -
  obtain l s opts where p: "partition_str (lower (case elt_info e of None \<Rightarrow> [] | Some i \<Rightarrow> if i = [] then [] else i)) (CHR ''?'') = (l, s, opts)"
    by (metis prod_cases3)
  show ?thesis
  proof (cases "map_of (parse_qs opts) ''example''")
    case None
    with p show ?thesis by (simp add: read_block_def Let_def)
  next
    case (Some vs)
    with assms have "vs \<noteq> []" by (auto simp: example_values_nonempty_def)
    then obtain v vs' where "vs = v # vs'" by (cases vs) auto
    with p Some show ?thesis by (simp add: read_block_def Let_def)
  qed
qed

lemma read_block_location:
  assumes "read_block parse_qs loc e = Inr (name, block)"
  shows "location block = loc"
  using assms
  by (auto simp: read_block_def Let_def split: prod.splits if_splits sum.splits list.splits option.splits)

lemma scan_ast_foldl:
  assumes "example_values_nonempty parse_qs"
  shows "scan_ast parse_qs loc (named, unnamed) ast =
           Inr (foldl add_entry (named, unnamed) (block_entries parse_qs loc ast))"
proof (induction ast arbitrary: named unnamed)
  case Nil
  show ?case by (simp add: block_entries_def)
next
  case (Cons e ast)
  have split: "block_entries parse_qs loc (e # ast) =
                 (if elt_type e = ''block_code''
                  then (case read_block parse_qs loc e of Inl err \<Rightarrow> [] | Inr nb \<Rightarrow> [nb])
                  else []) @ block_entries parse_qs loc ast"
    by (simp add: block_entries_def)
  show ?case
  proof (cases "elt_type e = ''block_code''")
    case False
    with Cons split show ?thesis by simp
  next
    case True
    from read_block_total[OF assms] obtain name block
      where rb: "read_block parse_qs loc e = Inr (name, block)"
      by (metis surj_pair)
    show ?thesis
      using True rb split Cons.IH by (simp add: add_entry_def)
  qed
qed

lemma first_occurrences_snoc:
  "first_occurrences (xs @ [x]) =
     (if x \<in> set xs then first_occurrences xs else first_occurrences xs @ [x])"
  by (simp add: first_occurrences_def)

lemma first_occurrences_set [simp]: "set (first_occurrences xs) = set xs"
  by (simp add: first_occurrences_def)

lemma first_occurrences_distinct [simp]: "distinct (first_occurrences xs)"
  by (simp add: first_occurrences_def)

lemma named_append_map:
  assumes "distinct ns"
  shows "named_append n b (map (\<lambda>m. (m, f m)) ns) =
           (if n \<in> set ns then map (\<lambda>m. (m, if m = n then f m @ [b] else f m)) ns
            else map (\<lambda>m. (m, f m)) ns @ [(n, [b])])"
  using assms by (induction ns) auto

lemma set_group_names:
  "set (group_names entries) = {n. n \<noteq> [] \<and> n \<in> fst ` set entries}"
  by (auto simp: group_names_def)

lemma members_empty_iff: "members n entries = [] \<longleftrightarrow> n \<notin> fst ` set entries"
  by (auto simp: members_def filter_empty_conv)

text \<open>The two accumulators after the first loop.\<close>

lemma foldl_add_entry:
  "foldl add_entry ([], unnamed) entries =
     (map (\<lambda>n. (n, members n entries)) (group_names entries), unnamed @ unnamed_of entries)"
proof (induction entries rule: rev_induct)
  case Nil
  show ?case by (simp add: group_names_def first_occurrences_def unnamed_of_def)
next
  case (snoc nb entries)
  obtain n b where nb: "nb = (n, b)" by (cases nb)
  let ?es = "entries @ [(n, b)]"
  let ?N = "map (\<lambda>m. (m, members m entries)) (group_names entries)"
  have mem: "members m ?es = (if m = n then members m entries @ [b] else members m entries)" for m
    by (simp add: members_def)
  have d: "distinct (group_names entries)" by (simp add: group_names_def)
  have st: "foldl add_entry ([], unnamed) ?es = add_entry (?N, unnamed @ unnamed_of entries) (n, b)"
    using snoc.IH by simp
  have "foldl add_entry ([], unnamed) ?es =
          (map (\<lambda>m. (m, members m ?es)) (group_names ?es), unnamed @ unnamed_of ?es)"
  proof (cases "n = []")
    case True
    have a: "add_entry (N, U) (n, b) = (N, U @ [b])" for N U
      using True by (simp add: add_entry_def)
    have g: "group_names ?es = group_names entries"
      using True by (simp add: group_names_def)
    have "[] \<notin> set (group_names entries)" by (simp add: set_group_names)
    then have m: "map (\<lambda>m. (m, members m ?es)) (group_names entries) = ?N"
      using True by (auto simp: members_def)
    have u: "unnamed_of ?es = unnamed_of entries @ [b]"
      using True by (simp add: unnamed_of_def)
    show ?thesis unfolding st a g m u by simp
  next
    case False
    have a: "add_entry (N, U) (n, b) = (named_append n b N, U)" for N U
      using False by (simp add: add_entry_def)
    have u: "unnamed_of ?es = unnamed_of entries"
      using False by (simp add: unnamed_of_def)
    show ?thesis
    proof (cases "n \<in> set (group_names entries)")
      case True
      then have g: "group_names ?es = group_names entries"
        using False by (auto simp: group_names_def first_occurrences_snoc)
      have m: "map (\<lambda>m. (m, members m ?es)) (group_names entries) =
               map (\<lambda>m. (m, if m = n then members m entries @ [b] else members m entries))
                 (group_names entries)"
        by (simp add: mem)
      have "named_append n b ?N =
            map (\<lambda>m. (m, if m = n then members m entries @ [b] else members m entries))
              (group_names entries)"
        using True by (simp add: named_append_map[OF d])
      then show ?thesis unfolding st a g m u by simp
    next
      case notin: False
      then have g: "group_names ?es = group_names entries @ [n]"
        using False by (auto simp: group_names_def first_occurrences_snoc)
      from notin False have "n \<notin> fst ` set entries" by (simp add: set_group_names)
      then have e: "members n entries = []" by (simp add: members_empty_iff)
      have m: "map (\<lambda>m. (m, members m ?es)) (group_names entries) = ?N"
        using notin by (auto simp: mem)
      have "named_append n b ?N = ?N @ [(n, [b])]"
        using notin by (simp add: named_append_map[OF d])
      moreover have "members n ?es = [b]" by (simp add: mem e)
      ultimately show ?thesis unfolding st a g u by (simp add: m)
    qed
  qed
  then show ?case by (simp add: nb)
qed

lemma merge_named_eq:
  assumes "\<forall>bs\<in>set groups. bs \<noteq> []"
  shows "merge_named loc unnamed groups =
           Inr (unnamed @ map (\<lambda>bs. \<lparr>language = language (hd bs),
                                      code = join (nl @ nl) (map code bs),
                                      options = options (hd bs),
                                      location = loc\<rparr>) groups)"
  using assms
proof (induction groups arbitrary: unnamed)
  case Nil
  show ?case by simp
next
  case (Cons bs groups)
  then obtain b bs' where "bs = b # bs'" by (cases bs) auto
  with Cons show ?case by simp
qed

lemma block_entries_location:
  assumes "(n, b) \<in> set (block_entries parse_qs loc ast)"
  shows "location b = loc"
proof -
  from assms obtain e where "read_block parse_qs loc e = Inr (n, b)"
    by (auto simp: block_entries_def split: if_splits sum.splits)
  then show ?thesis by (rule read_block_location)
qed

lemma hd_members_location:
  assumes "n \<in> set (group_names (block_entries parse_qs loc ast))"
  shows "location (hd (members n (block_entries parse_qs loc ast))) = loc"
proof -
  let ?es = "block_entries parse_qs loc ast"
  from assms have "members n ?es \<noteq> []" by (simp add: set_group_names members_empty_iff)
  then have "hd (members n ?es) \<in> set (members n ?es)" by simp
  then obtain m where "(m, hd (members n ?es)) \<in> set ?es" by (auto simp: members_def)
  then show ?thesis by (rule block_entries_location)
qed

text \<open>
  The result of the extraction: the blocks without a name in document order, then
  one merged block for each group name, in the order of the first occurrences.
\<close>

lemma get_top_level_block_codes_eq:
  assumes "example_values_nonempty parse_qs"
  shows "get_top_level_block_codes markdown parse_qs mark loc =
           Inr (unnamed_of (block_entries parse_qs loc (markdown mark)) @
                map (merged_block (block_entries parse_qs loc (markdown mark)))
                  (group_names (block_entries parse_qs loc (markdown mark))))"
proof -
  let ?es = "block_entries parse_qs loc (markdown mark)"
  have scan: "scan_ast parse_qs loc ([], []) (markdown mark) =
                Inr (map (\<lambda>n. (n, members n ?es)) (group_names ?es), unnamed_of ?es)"
    using scan_ast_foldl[OF assms, of loc "[]" "[]" "markdown mark"]
    by (simp add: foldl_add_entry)
  have nonempty: "\<forall>bs\<in>set (map (\<lambda>n. members n ?es) (group_names ?es)). bs \<noteq> []"
    by (auto simp: set_group_names members_empty_iff)
  have "map (\<lambda>bs. \<lparr>language = language (hd bs), code = join (nl @ nl) (map code bs),
                    options = options (hd bs), location = loc\<rparr>)
          (map (\<lambda>n. members n ?es) (group_names ?es)) =
        map (merged_block ?es) (group_names ?es)"
    using hd_members_location[of _ parse_qs loc "markdown mark"]
    by (simp add: merged_block_def)
  with merge_named_eq[OF nonempty, of loc "unnamed_of ?es"] scan
  show ?thesis by (simp add: get_top_level_block_codes_def comp_def)
qed

lemma dict_append_nonempty:
  assumes "\<forall>(k, vs)\<in>set d. vs \<noteq> []"
  shows "\<forall>(k, vs)\<in>set (dict_append name v d). vs \<noteq> []"
  using assms by (induction d) (auto split: if_splits)

lemma foldl_dict_append_nonempty:
  assumes "\<forall>(k, vs)\<in>set d. vs \<noteq> []"
  shows "\<forall>(k, vs)\<in>set (foldl (\<lambda>d (name, v). dict_append name v d) d pairs). vs \<noteq> []"
  using assms
proof (induction pairs arbitrary: d)
  case Nil
  then show ?case by simp
next
  case (Cons p pairs)
  obtain name v where p: "p = (name, v)" by (cases p)
  from dict_append_nonempty[OF Cons.prems] have "\<forall>(k, vs)\<in>set (dict_append name v d). vs \<noteq> []" .
  from Cons.IH[OF this] p show ?case by simp
qed

lemma urllib_parse_qs_nonempty: "example_values_nonempty urllib_parse_qs"
proof -
  have "vs \<noteq> []" if "map_of (urllib_parse_qs s) ''example'' = Some vs" for s vs
  proof -
    from that have "(''example'', vs) \<in> set (urllib_parse_qs s)" by (rule map_of_SomeD)
    moreover have "\<forall>(k, vs)\<in>set (urllib_parse_qs s). vs \<noteq> []"
      unfolding urllib_parse_qs_def by (rule foldl_dict_append_nonempty) simp
    ultimately show ?thesis by auto
  qed
  then show ?thesis by (auto simp: example_values_nonempty_def)
qed

lemma count_list_distinct:
  assumes "distinct xs" "x \<in> set xs"
  shows "count_list xs x = 1"
  using assms by (induction xs) auto

lemma length_block_entries:
  assumes "example_values_nonempty parse_qs"
  shows "length (block_entries parse_qs loc ast) =
           length (filter (\<lambda>e. elt_type e = ''block_code'') ast)"
proof (induction ast)
  case Nil
  show ?case by (simp add: block_entries_def)
next
  case (Cons e ast)
  from read_block_total[OF assms] obtain nb where "read_block parse_qs loc e = Inr nb" by blast
  with Cons show ?case by (simp add: block_entries_def)
qed

text \<open>
  C1. For the name of a block group (a non-empty example name that some fenced
  block of the document carries), the extraction returns, after the blocks without
  a name, the list of the merged blocks of the group names, in which the name
  stands exactly once: one synthesized block for the group. Its code is the codes
  of the members in the order of the scan, joined with two newlines; its language,
  options and location are those of the first member.
\<close>

theorem named_group_merged_once:
  assumes "example_values_nonempty parse_qs"
    and "name \<noteq> []"
    and "members name (block_entries parse_qs loc (markdown mark)) \<noteq> []"
  shows "(let entries = block_entries parse_qs loc (markdown mark);
              group = members name entries
          in get_top_level_block_codes markdown parse_qs mark loc =
               Inr (unnamed_of entries @ map (merged_block entries) (group_names entries)) \<and>
             count_list (group_names entries) name = 1 \<and>
             merged_block entries name =
               \<lparr>language = language (hd group),
                code = join (nl @ nl) (map code group),
                options = options (hd group),
                location = location (hd group)\<rparr>)"
proof -
  let ?es = "block_entries parse_qs loc (markdown mark)"
  from assms(2,3) have "name \<in> set (group_names ?es)"
    by (simp add: set_group_names members_empty_iff)
  moreover have "distinct (group_names ?es)" by (simp add: group_names_def)
  ultimately have "count_list (group_names ?es) name = 1" by (simp add: count_list_distinct)
  with get_top_level_block_codes_eq[OF assms(1), of markdown mark loc]
  show ?thesis by (simp add: Let_def merged_block_def)
qed

theorem named_group_merged_once_witness:
  "members ''a'' (block_entries urllib_parse_qs ''f.md'' (sample_markdown ''doc'')) =
     [\<lparr>language = ''py'', code = ''x = 1'' @ nl, options = [(''example'', [''a''])],
       location = ''f.md''\<rparr>,
      \<lparr>language = ''py'', code = ''y = 2'' @ nl, options = [(''example'', [''a''])],
       location = ''f.md''\<rparr>] \<and>
   get_top_level_block_codes sample_markdown urllib_parse_qs ''doc'' ''f.md'' =
     Inr [\<lparr>language = [], code = ''echo'' @ nl, options = [], location = ''f.md''\<rparr>,
          \<lparr>language = ''py'', code = ''x = 1'' @ nl @ nl @ nl @ ''y = 2'' @ nl,
           options = [(''example'', [''a''])], location = ''f.md''\<rparr>,
          \<lparr>language = ''r'', code = ''z <- 3'' @ nl,
           options = [(''skip'', [''true'']), (''example'', [''b''])], location = ''f.md''\<rparr>] \<and>
   count_list (group_names (block_entries urllib_parse_qs ''f.md'' (sample_markdown ''doc''))) ''a'' = 1 \<and>
   merged_block (block_entries urllib_parse_qs ''f.md'' (sample_markdown ''doc'')) ''a'' =
     \<lparr>language = ''py'', code = ''x = 1'' @ nl @ nl @ nl @ ''y = 2'' @ nl,
      options = [(''example'', [''a''])], location = ''f.md''\<rparr>"
proof -
  let ?es = "block_entries urllib_parse_qs ''f.md'' (sample_markdown ''doc'')"
  have a: "''a'' \<noteq> []" by simp
  have m: "members ''a'' ?es =
     [\<lparr>language = ''py'', code = ''x = 1'' @ nl, options = [(''example'', [''a''])],
       location = ''f.md''\<rparr>,
      \<lparr>language = ''py'', code = ''y = 2'' @ nl, options = [(''example'', [''a''])],
       location = ''f.md''\<rparr>]"
    by code_simp
  then have b: "members ''a'' ?es \<noteq> []" by simp
  have c: "unnamed_of ?es @ map (merged_block ?es) (group_names ?es) =
     [\<lparr>language = [], code = ''echo'' @ nl, options = [], location = ''f.md''\<rparr>,
      \<lparr>language = ''py'', code = ''x = 1'' @ nl @ nl @ nl @ ''y = 2'' @ nl,
       options = [(''example'', [''a''])], location = ''f.md''\<rparr>,
      \<lparr>language = ''r'', code = ''z <- 3'' @ nl,
       options = [(''skip'', [''true'']), (''example'', [''b''])], location = ''f.md''\<rparr>]"
    by code_simp
  have d: "merged_block ?es ''a'' =
     \<lparr>language = ''py'', code = ''x = 1'' @ nl @ nl @ nl @ ''y = 2'' @ nl,
      options = [(''example'', [''a''])], location = ''f.md''\<rparr>"
    by code_simp
  from named_group_merged_once[where markdown = sample_markdown and mark = "''doc''"
      and loc = "''f.md''", OF urllib_parse_qs_nonempty a b] m c d
  show ?thesis by (simp add: Let_def)
qed

text \<open>
  C2. The extraction returns the blocks without a name in document order, followed
  by the merged blocks of the groups in the order in which the group names first
  occur. Every fenced block of the document is an entry of the scan, and the
  length of the result is the number of entries without a name plus the number of
  distinct group names.
\<close>

theorem extraction_order:
  assumes "example_values_nonempty parse_qs"
  shows "(let entries = block_entries parse_qs loc (markdown mark)
          in \<exists>blocks.
               get_top_level_block_codes markdown parse_qs mark loc = Inr blocks \<and>
               blocks =
                 map snd (filter (\<lambda>nb. fst nb = []) entries) @
                 map (merged_block entries)
                   (first_occurrences (filter (\<lambda>name. name \<noteq> []) (map fst entries))) \<and>
               length entries = length (filter (\<lambda>e. elt_type e = ''block_code'') (markdown mark)) \<and>
               length blocks =
                 length (filter (\<lambda>nb. fst nb = []) entries) +
                 card {name. name \<noteq> [] \<and> name \<in> fst ` set entries})"
proof -
  let ?es = "block_entries parse_qs loc (markdown mark)"
  let ?names = "filter (\<lambda>name. name \<noteq> []) (map fst ?es)"
  let ?blocks = "map snd (filter (\<lambda>nb. fst nb = []) ?es) @
                 map (merged_block ?es) (first_occurrences ?names)"
  have s: "set (first_occurrences ?names) = {name. name \<noteq> [] \<and> name \<in> fst ` set ?es}"
    by auto
  have "length (first_occurrences ?names) = card (set (first_occurrences ?names))"
    by (simp only: distinct_card[OF first_occurrences_distinct])
  then have "length (first_occurrences ?names) =
               card {name. name \<noteq> [] \<and> name \<in> fst ` set ?es}"
    by (simp only: s)
  then have len: "length ?blocks =
      length (filter (\<lambda>nb. fst nb = []) ?es) + card {name. name \<noteq> [] \<and> name \<in> fst ` set ?es}"
    by (simp only: length_append length_map)
  have res: "get_top_level_block_codes markdown parse_qs mark loc = Inr ?blocks"
    using get_top_level_block_codes_eq[OF assms, of markdown mark loc]
    by (simp add: unnamed_of_def group_names_def)
  have cnt: "length ?es = length (filter (\<lambda>e. elt_type e = ''block_code'') (markdown mark))"
    by (rule length_block_entries[OF assms])
  show ?thesis
    unfolding Let_def
    by (rule exI[where x = ?blocks]) (use res len cnt in blast)
qed

theorem extraction_order_witness:
  "get_top_level_block_codes sample_markdown urllib_parse_qs ''doc'' ''g.md'' =
     Inr [\<lparr>language = [], code = ''echo'' @ nl, options = [], location = ''g.md''\<rparr>,
          \<lparr>language = ''py'', code = ''x = 1'' @ nl @ nl @ nl @ ''y = 2'' @ nl,
           options = [(''example'', [''a''])], location = ''g.md''\<rparr>,
          \<lparr>language = ''r'', code = ''z <- 3'' @ nl,
           options = [(''skip'', [''true'']), (''example'', [''b''])], location = ''g.md''\<rparr>] \<and>
   length (filter (\<lambda>e. elt_type e = ''block_code'') (sample_markdown ''doc'')) = 4 \<and>
   card {name. name \<noteq> [] \<and>
           name \<in> fst ` set (block_entries urllib_parse_qs ''g.md'' (sample_markdown ''doc''))} = 2"
proof -
  let ?es = "block_entries urllib_parse_qs ''g.md'' (sample_markdown ''doc'')"
  have c: "map snd (filter (\<lambda>nb. fst nb = []) ?es) @
           map (merged_block ?es) (first_occurrences (filter (\<lambda>name. name \<noteq> []) (map fst ?es))) =
     [\<lparr>language = [], code = ''echo'' @ nl, options = [], location = ''g.md''\<rparr>,
      \<lparr>language = ''py'', code = ''x = 1'' @ nl @ nl @ nl @ ''y = 2'' @ nl,
       options = [(''example'', [''a''])], location = ''g.md''\<rparr>,
      \<lparr>language = ''r'', code = ''z <- 3'' @ nl,
       options = [(''skip'', [''true'']), (''example'', [''b''])], location = ''g.md''\<rparr>]"
    by code_simp
  have d: "length (filter (\<lambda>e. elt_type e = ''block_code'') (sample_markdown ''doc'')) = 4"
    by code_simp
  have e: "length (filter (\<lambda>nb. fst nb = []) ?es) = 1" by code_simp
  from extraction_order[where markdown = sample_markdown and mark = "''doc''"
      and loc = "''g.md''", OF urllib_parse_qs_nonempty]
  obtain blocks where
    r: "get_top_level_block_codes sample_markdown urllib_parse_qs ''doc'' ''g.md'' = Inr blocks"
    and b: "blocks = map snd (filter (\<lambda>nb. fst nb = []) ?es) @
              map (merged_block ?es) (first_occurrences (filter (\<lambda>name. name \<noteq> []) (map fst ?es)))"
    and l: "length blocks = length (filter (\<lambda>nb. fst nb = []) ?es) +
              card {name. name \<noteq> [] \<and> name \<in> fst ` set ?es}"
    unfolding Let_def by blast
  from b c have b': "blocks =
     [\<lparr>language = [], code = ''echo'' @ nl, options = [], location = ''g.md''\<rparr>,
      \<lparr>language = ''py'', code = ''x = 1'' @ nl @ nl @ nl @ ''y = 2'' @ nl,
       options = [(''example'', [''a''])], location = ''g.md''\<rparr>,
      \<lparr>language = ''r'', code = ''z <- 3'' @ nl,
       options = [(''skip'', [''true'']), (''example'', [''b''])], location = ''g.md''\<rparr>]"
    by (rule trans)
  then have "length blocks = 3" by simp
  with l e have "card {name. name \<noteq> [] \<and> name \<in> fst ` set ?es} = 2" by simp
  with r b' d show ?thesis by blast
qed

subsection \<open>Letter case of the headers\<close>

lemma lower_char_idem: "lower_char (lower_char c) = lower_char c"
  unfolding lower_char_def Let_def by (auto simp: of_char_of)

lemma lower_idem: "lower (lower s) = lower s"
  by (simp add: lower_def lower_char_idem)

lemma lower_fixed_iff: "lower s = s \<longleftrightarrow> (\<forall>c\<in>set s. lower_char c = c)"
  unfolding lower_def by (induction s) auto

lemma lower_takeWhile: "lower s = s \<Longrightarrow> lower (takeWhile P s) = takeWhile P s"
  unfolding lower_fixed_iff by (auto dest: set_takeWhileD)

lemma lower_dropWhile: "lower s = s \<Longrightarrow> lower (dropWhile P s) = dropWhile P s"
  unfolding lower_fixed_iff by (auto dest: set_dropWhileD)

lemma lower_drop: "lower s = s \<Longrightarrow> lower (drop n s) = drop n s"
  unfolding lower_fixed_iff by (auto dest: in_set_dropD)

lemma read_block_info:
  "read_block parse_qs loc e =
     (let (language, _, opts) = partition_str (lower (info_or_empty e)) (CHR ''?'')
      in case (if opts \<noteq> [] then
                 (let doptions = parse_qs opts
                  in case (case map_of doptions ''example'' of None \<Rightarrow> [[]] | Some vs \<Rightarrow> vs) of
                       [] \<Rightarrow> Inl IndexError
                     | name # _ \<Rightarrow> Inr (doptions, name))
               else Inr ([], [])) of
           Inl err \<Rightarrow> Inl err
         | Inr (doptions, name) \<Rightarrow>
             Inr (name,
                  \<lparr>language = language, code = elt_text e, options = doptions, location = loc\<rparr>))"
proof -
  have "(case elt_info e of None \<Rightarrow> [] | Some i \<Rightarrow> if i = [] then [] else i) = info_or_empty e"
    by (simp add: info_or_empty_def split: option.splits)
  then show ?thesis by (simp add: read_block_def Let_def)
qed

lemma read_block_cong:
  assumes "elt_text a = elt_text b" "lower (info_or_empty a) = lower (info_or_empty b)"
  shows "read_block parse_qs loc a = read_block parse_qs loc b"
  unfolding read_block_info assms by (rule refl)

lemma read_block_lowercase:
  assumes "read_block parse_qs loc e = Inr (name, block)"
  shows "from_lowercase_header parse_qs block"
proof -
  let ?h = "lower (info_or_empty e)"
  let ?l = "takeWhile (\<lambda>x. x \<noteq> CHR ''?'') ?h"
  let ?o = "drop 1 (dropWhile (\<lambda>x. x \<noteq> CHR ''?'') ?h)"
  have h: "lower ?h = ?h" by (rule lower_idem)
  have l: "lower ?l = ?l" using h by (rule lower_takeWhile)
  have o: "lower ?o = ?o" using h by (intro lower_drop lower_dropWhile)
  from assms have "language block = ?l \<and> (options block = [] \<or> options block = parse_qs ?o)"
    by (auto simp: read_block_info partition_str_def Let_def
             split: if_splits list.splits option.splits)
  with l o show ?thesis unfolding from_lowercase_header_def by metis
qed

lemma named_append_lowercase:
  assumes "from_lowercase_header parse_qs block"
    and "\<forall>bs\<in>set (map snd named). \<forall>b\<in>set bs. from_lowercase_header parse_qs b"
  shows "\<forall>bs\<in>set (map snd (named_append name block named)).
           \<forall>b\<in>set bs. from_lowercase_header parse_qs b"
  using assms by (induction named) (auto split: if_splits)

lemma scan_ast_lowercase:
  assumes "scan_ast parse_qs loc (named, unnamed) ast = Inr (named', unnamed')"
    and "\<forall>bs\<in>set (map snd named). \<forall>b\<in>set bs. from_lowercase_header parse_qs b"
    and "\<forall>b\<in>set unnamed. from_lowercase_header parse_qs b"
  shows "(\<forall>bs\<in>set (map snd named'). \<forall>b\<in>set bs. from_lowercase_header parse_qs b) \<and>
         (\<forall>b\<in>set unnamed'. from_lowercase_header parse_qs b)"
  using assms
proof (induction ast arbitrary: named unnamed)
  case Nil
  then show ?case by simp
next
  case (Cons e ast)
  show ?case
  proof (cases "elt_type e = ''block_code''")
    case False
    with Cons.prems(1) have s: "scan_ast parse_qs loc (named, unnamed) ast = Inr (named', unnamed')"
      by simp
    show ?thesis by (rule Cons.IH[OF s Cons.prems(2) Cons.prems(3)])
  next
    case True
    with Cons.prems(1) obtain name block where rb: "read_block parse_qs loc e = Inr (name, block)"
      by (auto split: sum.splits)
    from read_block_lowercase[OF rb] have p: "from_lowercase_header parse_qs block" .
    show ?thesis
    proof (cases "name = []")
      case empty: True
      with Cons.prems(1) True rb
      have s: "scan_ast parse_qs loc (named, unnamed @ [block]) ast = Inr (named', unnamed')"
        by simp
      from Cons.prems(3) p have u: "\<forall>b\<in>set (unnamed @ [block]). from_lowercase_header parse_qs b"
        by simp
      show ?thesis by (rule Cons.IH[OF s Cons.prems(2) u])
    next
      case False
      with Cons.prems(1) True rb
      have s: "scan_ast parse_qs loc (named_append name block named, unnamed) ast =
                 Inr (named', unnamed')"
        by simp
      show ?thesis
        by (rule Cons.IH[OF s named_append_lowercase[OF p Cons.prems(2)] Cons.prems(3)])
    qed
  qed
qed

lemma merge_named_lowercase:
  assumes "merge_named loc unnamed groups = Inr blocks"
    and "\<forall>bs\<in>set groups. \<forall>b\<in>set bs. from_lowercase_header parse_qs b"
    and "\<forall>b\<in>set unnamed. from_lowercase_header parse_qs b"
  shows "\<forall>b\<in>set blocks. from_lowercase_header parse_qs b"
  using assms
proof (induction groups arbitrary: unnamed)
  case Nil
  then show ?case by simp
next
  case (Cons bs groups)
  from Cons.prems(1) obtain first rest where bs: "bs = first # rest"
    by (cases bs) auto
  let ?m = "\<lparr>language = language first, code = join (nl @ nl) (map code bs),
             options = options first, location = loc\<rparr>"
  from Cons.prems(2) bs have "from_lowercase_header parse_qs first" by simp
  then have "from_lowercase_header parse_qs ?m" by (simp add: from_lowercase_header_def)
  with Cons.prems(3) have u: "\<forall>b\<in>set (unnamed @ [?m]). from_lowercase_header parse_qs b" by simp
  from Cons.prems(1) bs have "merge_named loc (unnamed @ [?m]) groups = Inr blocks" by simp
  moreover from Cons.prems(2) have "\<forall>bs\<in>set groups. \<forall>b\<in>set bs. from_lowercase_header parse_qs b"
    by simp
  ultimately show ?case using u by (rule Cons.IH)
qed

lemma scan_ast_cong:
  assumes "list_all2 (\<lambda>a b. elt_type a = elt_type b \<and> elt_text a = elt_text b \<and>
                            lower (info_or_empty a) = lower (info_or_empty b)) ast ast'"
  shows "scan_ast parse_qs loc (named, unnamed) ast = scan_ast parse_qs loc (named, unnamed) ast'"
  using assms
proof (induction ast ast' arbitrary: named unnamed rule: list_all2_induct)
  case Nil
  show ?case by simp
next
  case (Cons a ast b ast')
  then have "read_block parse_qs loc a = read_block parse_qs loc b"
    by (intro read_block_cong) simp_all
  with Cons show ?case by (simp split: sum.splits)
qed

text \<open>
  C10, as the code has it. The header is lower-cased as a whole before it is split
  at the question mark. So two documents whose fenced blocks differ only in the
  letter case of their headers give the same result: the blocks get the same
  language, options and group. And in every block returned the language is in
  lower case and the options are empty or what the query string parser returns for
  a string in lower case.
\<close>

theorem header_case_insensitive:
  assumes "list_all2 (\<lambda>a b. elt_type a = elt_type b \<and> elt_text a = elt_text b \<and>
                            lower (info_or_empty a) = lower (info_or_empty b))
             (markdown mark) (markdown mark')"
  shows "get_top_level_block_codes markdown parse_qs mark loc =
           get_top_level_block_codes markdown parse_qs mark' loc \<and>
         (\<forall>blocks. get_top_level_block_codes markdown parse_qs mark loc = Inr blocks \<longrightarrow>
            (\<forall>b\<in>set blocks. from_lowercase_header parse_qs b))"
proof -
  have same: "get_top_level_block_codes markdown parse_qs mark loc =
                get_top_level_block_codes markdown parse_qs mark' loc"
    using scan_ast_cong[OF assms, of parse_qs loc "[]" "[]"]
    by (simp add: get_top_level_block_codes_def)
  have "\<forall>b\<in>set blocks. from_lowercase_header parse_qs b"
    if r: "get_top_level_block_codes markdown parse_qs mark loc = Inr blocks" for blocks
  proof -
    from r obtain named unnamed
      where s: "scan_ast parse_qs loc ([], []) (markdown mark) = Inr (named, unnamed)"
        and m: "merge_named loc unnamed (map snd named) = Inr blocks"
      by (auto simp: get_top_level_block_codes_def split: sum.splits)
    from scan_ast_lowercase[OF s] have
      "(\<forall>bs\<in>set (map snd named). \<forall>b\<in>set bs. from_lowercase_header parse_qs b) \<and>
       (\<forall>b\<in>set unnamed. from_lowercase_header parse_qs b)"
      by simp
    with merge_named_lowercase[OF m] show ?thesis by blast
  qed
  with same show ?thesis by blast
qed

theorem header_case_insensitive_witness:
  "list_all2 (\<lambda>a b. elt_type a = elt_type b \<and> elt_text a = elt_text b \<and>
                     lower (info_or_empty a) = lower (info_or_empty b))
     (sample_markdown ''doc'') (sample_markdown ''upper'') \<and>
   get_top_level_block_codes sample_markdown urllib_parse_qs ''doc'' ''h.md'' =
     get_top_level_block_codes sample_markdown urllib_parse_qs ''upper'' ''h.md'' \<and>
   get_top_level_block_codes sample_markdown urllib_parse_qs ''upper'' ''h.md'' =
     Inr [\<lparr>language = [], code = ''echo'' @ nl, options = [], location = ''h.md''\<rparr>,
          \<lparr>language = ''py'', code = ''x = 1'' @ nl @ nl @ nl @ ''y = 2'' @ nl,
           options = [(''example'', [''a''])], location = ''h.md''\<rparr>,
          \<lparr>language = ''r'', code = ''z <- 3'' @ nl,
           options = [(''skip'', [''true'']), (''example'', [''b''])], location = ''h.md''\<rparr>] \<and>
   from_lowercase_header urllib_parse_qs
     \<lparr>language = ''r'', code = ''z <- 3'' @ nl,
      options = [(''skip'', [''true'']), (''example'', [''b''])], location = ''h.md''\<rparr>"
proof -
  have a: "list_all2 (\<lambda>a b. elt_type a = elt_type b \<and> elt_text a = elt_text b \<and>
                             lower (info_or_empty a) = lower (info_or_empty b))
             (sample_markdown ''doc'') (sample_markdown ''upper'')"
    by code_simp
  have b: "get_top_level_block_codes sample_markdown urllib_parse_qs ''doc'' ''h.md'' =
     Inr [\<lparr>language = [], code = ''echo'' @ nl, options = [], location = ''h.md''\<rparr>,
          \<lparr>language = ''py'', code = ''x = 1'' @ nl @ nl @ nl @ ''y = 2'' @ nl,
           options = [(''example'', [''a''])], location = ''h.md''\<rparr>,
          \<lparr>language = ''r'', code = ''z <- 3'' @ nl,
           options = [(''skip'', [''true'']), (''example'', [''b''])], location = ''h.md''\<rparr>]"
    by code_simp
  let ?r = "\<lparr>language = ''r'', code = ''z <- 3'' @ nl,
             options = [(''skip'', [''true'']), (''example'', [''b''])], location = ''h.md''\<rparr>"
  from header_case_insensitive[where markdown = sample_markdown and mark = "''doc''"
      and mark' = "''upper''" and parse_qs = urllib_parse_qs and loc = "''h.md''", OF a]
  have same: "get_top_level_block_codes sample_markdown urllib_parse_qs ''doc'' ''h.md'' =
                get_top_level_block_codes sample_markdown urllib_parse_qs ''upper'' ''h.md''"
    and low: "\<And>blocks. get_top_level_block_codes sample_markdown urllib_parse_qs ''doc'' ''h.md'' =
                  Inr blocks \<Longrightarrow> \<forall>b\<in>set blocks. from_lowercase_header urllib_parse_qs b"
    by blast+
  from low[OF b] have l: "from_lowercase_header urllib_parse_qs ?r" by simp
  have u: "get_top_level_block_codes sample_markdown urllib_parse_qs ''upper'' ''h.md'' =
     Inr [\<lparr>language = [], code = ''echo'' @ nl, options = [], location = ''h.md''\<rparr>,
          \<lparr>language = ''py'', code = ''x = 1'' @ nl @ nl @ nl @ ''y = 2'' @ nl,
           options = [(''example'', [''a''])], location = ''h.md''\<rparr>,
          ?r]"
    using b[unfolded same] .
  show ?thesis by (intro conjI a same u l)
qed

text \<open>
  C10, as it is stated, fails: the percent escapes are decoded after the header is
  lower-cased, so the header \<open>py?example=%41\<close> gives the option value and group
  name \<open>A\<close>, which is not in lower case.
\<close>

theorem option_value_uppercase_counterexample:
  "get_top_level_block_codes sample_markdown urllib_parse_qs ''escaped'' ''f.md'' =
     Inr [\<lparr>language = ''py'', code = ''x = 1'' @ nl, options = [(''example'', [''A''])],
           location = ''f.md''\<rparr>] \<and>
   lower ''A'' \<noteq> ''A''"
proof -
  have l: "lower ''py?example=%41'' = ''py?example=%41''"
    by (simp add: lower_def lower_char_def)
  have q: "urllib_parse_qs ''example=%41'' = [(''example'', [''A''])]"
    by (simp add: urllib_parse_qs_def partition_str_def plus_to_space_def hex_digit_def
          char_of_def bit_Suc_0_iff)
  have rb: "read_block urllib_parse_qs ''f.md''
              \<lparr>elt_type = ''block_code'', elt_info = Some ''py?example=%41'', elt_text = c\<rparr> =
            Inr (''A'', \<lparr>language = ''py'', code = c,
                        options = [(''example'', [''A''])], location = ''f.md''\<rparr>)" for c
    by (simp add: read_block_def partition_str_def l q)
  have "get_top_level_block_codes sample_markdown urllib_parse_qs ''escaped'' ''f.md'' =
     Inr [\<lparr>language = ''py'', code = ''x = 1'' @ nl, options = [(''example'', [''A''])],
           location = ''f.md''\<rparr>]"
    by (simp add: get_top_level_block_codes_def sample_markdown_def escaped_ast_def rb)
  moreover have "lower ''A'' \<noteq> ''A''"
    by (simp add: lower_def lower_char_def char_of_def bit_Suc_0_iff)
  ultimately show ?thesis by (rule conjI)
qed

subsection \<open>Strings\<close>

lemma isspace_nl [simp]: "isspace (CHR 0x0A)"
  by (simp add: isspace_def)

lemma not_isspace_backtick [simp]: "\<not> isspace (CHR 0x60)"
  by (simp add: isspace_def)

lemma rstrip_Nil [simp]: "rstrip [] = []"
  by (simp add: rstrip_def)

lemma rstrip_snoc: "rstrip (s @ [c]) = (if isspace c then rstrip s else s @ [c])"
  by (simp add: rstrip_def)

lemma rstrip_append_nl [simp]: "rstrip (s @ nl) = rstrip s"
  by (simp add: nl_def rstrip_snoc)

lemma rstrip_idem [simp]: "rstrip (rstrip s) = rstrip s"
  by (simp add: rstrip_def)

lemma length_rstrip_le: "length (rstrip s) \<le> length s"
  by (simp add: rstrip_def) (metis length_dropWhile_le length_rev)

lemma rstrip_fixed_iff: "rstrip s = s \<longleftrightarrow> s = [] \<or> \<not> isspace (last s)"
proof (cases s rule: rev_cases)
  case Nil
  then show ?thesis by simp
next
  case (snoc ys y)
  have "rstrip ys \<noteq> ys @ [y]"
    using length_rstrip_le[of ys] by (auto dest: arg_cong[where f = length])
  with snoc show ?thesis by (simp add: rstrip_snoc)
qed

lemma rstrip_append_fixed:
  assumes "x \<noteq> []" "rstrip x = x"
  shows "rstrip (a @ x) = a @ x"
proof -
  from assms obtain y c where x: "x = y @ [c]" and c: "\<not> isspace c"
    by (cases x rule: rev_cases) (auto simp: rstrip_fixed_iff)
  then have "rstrip ((a @ y) @ [c]) = (a @ y) @ [c]" by (simp only: rstrip_snoc if_False)
  with x show ?thesis by simp
qed

lemma startswith_fence_Cons:
  assumes "startswith l fence"
  shows "\<exists>t. l = CHR 0x60 # CHR 0x60 # CHR 0x60 # t"
  using assms
  by (cases l; cases "tl l"; cases "tl (tl l)") (auto simp: startswith_def fence_def)

lemma fence_drop:
  assumes "startswith l fence"
  shows "fence @ drop 3 l = l"
proof -
  from startswith_fence_Cons[OF assms] obtain t where "l = CHR 0x60 # CHR 0x60 # CHR 0x60 # t" ..
  then show ?thesis by (simp add: fence_def)
qed

lemma lstrip_fence:
  assumes "startswith l fence"
  shows "lstrip l = l"
proof -
  from startswith_fence_Cons[OF assms] obtain t where "l = CHR 0x60 # CHR 0x60 # CHR 0x60 # t" ..
  then show ?thesis by (simp add: lstrip_def)
qed

lemma strip_fence_line: "startswith (rstrip raw) fence \<Longrightarrow> strip (rstrip raw) = rstrip raw"
  by (simp add: strip_def lstrip_fence)

lemma startswith_fence_append [simp]: "startswith (fence @ s) fence"
  by (simp add: startswith_def)

lemma rstrip_fence [simp]: "rstrip fence = fence"
  by (simp add: rstrip_fixed_iff fence_def)

lemma unlines_Nil [simp]: "unlines [] = []"
  by (simp add: unlines_def)

lemma unlines_Cons [simp]: "unlines (x # xs) = x @ nl @ unlines xs"
  by (simp add: unlines_def)

lemma unlines_append [simp]: "unlines (xs @ ys) = unlines xs @ unlines ys"
  by (simp add: unlines_def)

lemma join_nl_unlines: "xs \<noteq> [] \<Longrightarrow> join nl xs @ nl = unlines xs"
  by (induction nl xs rule: join.induct) simp_all

lemma unlines_empty_iff [simp]: "unlines xs = [] \<longleftrightarrow> xs = []"
  by (cases xs) (simp_all add: nl_def)

lemma unlines_eq_join_eq:
  assumes "unlines xs = unlines ys"
  shows "join nl xs = join nl ys"
proof (cases "xs = []")
  case True
  with assms have "ys = []" by (metis unlines_empty_iff)
  with True show ?thesis by simp
next
  case False
  with assms have "ys \<noteq> []" by (metis unlines_empty_iff)
  with False assms have "join nl xs @ nl = join nl ys @ nl" by (simp add: join_nl_unlines)
  then show ?thesis by simp
qed

subsection \<open>Round trip of passthrough files\<close>

text \<open>
  The scan of the rest of a canonical file, from a state inside or outside a
  fence: it ends outside a fence, and its output, line by line, is the output so
  far, the lines of the open fence, and the rest of the file right-trimmed.
\<close>

lemma scan_canonical:
  assumes "passthrough_canonical (is_in_fence st) (fenced_lines st \<noteq> []) ls"
    and "is_in_fence st \<longrightarrow>
           (\<exists>p. fence_parameters st = Some p \<and> lower (strip p) = p \<and>
                \<not> startswith p ''py'' \<and> \<not> startswith p ''r'')"
    and "\<not> is_in_fence st \<longrightarrow> fenced_lines st = []"
  shows "\<exists>st'. scan_lines B S img st ls = Inr st' \<and> \<not> is_in_fence st' \<and>
           unlines (final_lines st') =
             unlines (final_lines st) @
             (if is_in_fence st
              then unlines ((fence @ the (fence_parameters st)) # fenced_lines st) else []) @
             unlines (map rstrip ls)"
  using assms
proof (induction ls arbitrary: st)
  case Nil
  then show ?case by simp
next
  case (Cons raw ls)
  let ?line = "rstrip raw"
  show ?case
  proof (cases "startswith ?line fence")
    case fence_line: True
    show ?thesis
    proof (cases "is_in_fence st")
      case True
      with Cons.prems(2) obtain p where p: "fence_parameters st = Some p" "lower (strip p) = p"
        "\<not> startswith p ''py''" "\<not> startswith p ''r''"
        by auto
      from Cons.prems(1) True fence_line have body: "fenced_lines st \<noteq> []" and bare: "?line = fence"
        and rest: "passthrough_canonical False False ls"
        by (simp_all add: Let_def)
      let ?block = "fence @ p @ nl @ join nl (fenced_lines st) @ nl @ fence"
      let ?st1 = "st\<lparr>final_lines := final_lines st @ [?block], is_in_fence := False,
                     fenced_lines := [], fence_parameters := None\<rparr>"
      have fmt: "format_str B S (join nl (fenced_lines st)) p img = Inr ?block"
        using p by (simp add: format_str_def)
      have step: "scan_line B S img st raw = Inr ?st1"
        using True fence_line p(1) fmt by (simp add: scan_line_def Let_def)
      have "\<exists>st'. scan_lines B S img ?st1 ls = Inr st' \<and> \<not> is_in_fence st' \<and>
              unlines (final_lines st') =
                unlines (final_lines ?st1) @
                (if is_in_fence ?st1
                 then unlines ((fence @ the (fence_parameters ?st1)) # fenced_lines ?st1) else []) @
                unlines (map rstrip ls)"
        using rest by (intro Cons.IH) simp_all
      then obtain st' where st': "scan_lines B S img ?st1 ls = Inr st'" "\<not> is_in_fence st'"
        "unlines (final_lines st') = unlines (final_lines st @ [?block]) @ unlines (map rstrip ls)"
        by auto
      have "unlines [?block] = unlines ((fence @ p) # fenced_lines st) @ unlines [?line]"
        using body bare by (simp add: join_nl_unlines[symmetric])
      with st' step True p(1) show ?thesis by simp
    next
      case False
      let ?p = "drop 3 (strip ?line)"
      let ?st1 = "st\<lparr>is_in_fence := True, fence_parameters := Some ?p\<rparr>"
      from Cons.prems(1) False fence_line have hdr: "lower (strip ?p) = ?p"
        "\<not> startswith ?p ''py''" "\<not> startswith ?p ''r''"
        and rest: "passthrough_canonical True False ls"
        by (simp_all add: Let_def)
      from Cons.prems(3) False have empty: "fenced_lines st = []" by simp
      have step: "scan_line B S img st raw = Inr ?st1"
        using False fence_line by (simp add: scan_line_def Let_def)
      have "\<exists>st'. scan_lines B S img ?st1 ls = Inr st' \<and> \<not> is_in_fence st' \<and>
              unlines (final_lines st') =
                unlines (final_lines ?st1) @
                (if is_in_fence ?st1
                 then unlines ((fence @ the (fence_parameters ?st1)) # fenced_lines ?st1) else []) @
                unlines (map rstrip ls)"
        using rest hdr empty by (intro Cons.IH) simp_all
      then obtain st' where st': "scan_lines B S img ?st1 ls = Inr st'" "\<not> is_in_fence st'"
        "unlines (final_lines st') =
           unlines (final_lines st) @ unlines [fence @ ?p] @ unlines (map rstrip ls)"
        using empty by auto
      have "fence @ ?p = ?line"
        using fence_line by (simp add: strip_fence_line fence_drop)
      with st' step False show ?thesis by simp
    qed
  next
    case plain: False
    show ?thesis
    proof (cases "is_in_fence st")
      case True
      let ?st1 = "st\<lparr>fenced_lines := fenced_lines st @ [?line]\<rparr>"
      from Cons.prems(1) True plain have rest: "passthrough_canonical True True ls"
        by (simp add: Let_def)
      have step: "scan_line B S img st raw = Inr ?st1"
        using True plain by (simp add: scan_line_def Let_def)
      have "\<exists>st'. scan_lines B S img ?st1 ls = Inr st' \<and> \<not> is_in_fence st' \<and>
              unlines (final_lines st') =
                unlines (final_lines ?st1) @
                (if is_in_fence ?st1
                 then unlines ((fence @ the (fence_parameters ?st1)) # fenced_lines ?st1) else []) @
                unlines (map rstrip ls)"
        using rest True Cons.prems(2) by (intro Cons.IH) simp_all
      with step True show ?thesis by simp
    next
      case False
      let ?st1 = "st\<lparr>final_lines := final_lines st @ [rstrip ?line]\<rparr>"
      from Cons.prems(1) False plain have rest: "passthrough_canonical False False ls"
        by (simp add: Let_def)
      have step: "scan_line B S img st raw = Inr ?st1"
        using False plain by (simp add: scan_line_def Let_def)
      have "\<exists>st'. scan_lines B S img ?st1 ls = Inr st' \<and> \<not> is_in_fence st' \<and>
              unlines (final_lines st') =
                unlines (final_lines ?st1) @
                (if is_in_fence ?st1
                 then unlines ((fence @ the (fence_parameters ?st1)) # fenced_lines ?st1) else []) @
                unlines (map rstrip ls)"
        using rest False Cons.prems(3) by (intro Cons.IH) simp_all
      with step False show ?thesis by simp
    qed
  qed
qed

text \<open>
  C6, as the code has it. A file without a recognized language, in canonical
  passthrough form, is unchanged but for white space at the end of the lines and of
  the file: \<open>format_file\<close> returns its lines right-trimmed and joined with
  newlines, right-trimmed as a whole, and one newline.
\<close>

theorem passthrough_round_trip:
  assumes "fs filename = Some contents"
    and "passthrough_canonical False False (readlines contents)"
  shows "format_file black styler fs filename r_docker_image =
           Inr (rstrip (join nl (map rstrip (readlines contents))) @ nl)"
proof -
  have "\<exists>st'. scan_lines black styler r_docker_image init_state (readlines contents) = Inr st' \<and>
          \<not> is_in_fence st' \<and>
          unlines (final_lines st') =
            unlines (final_lines init_state) @
            (if is_in_fence init_state
             then unlines ((fence @ the (fence_parameters init_state)) # fenced_lines init_state)
             else []) @
            unlines (map rstrip (readlines contents))"
    using assms(2) by (intro scan_canonical) (simp_all add: init_state_def)
  then obtain st' where
    scan: "scan_lines black styler r_docker_image init_state (readlines contents) = Inr st'"
    and out: "unlines (final_lines st') = unlines (map rstrip (readlines contents))"
    by (auto simp: init_state_def)
  from out have "join nl (final_lines st') = join nl (map rstrip (readlines contents))"
    by (rule unlines_eq_join_eq)
  with scan assms(1) show ?thesis by (simp add: format_file_def)
qed

theorem passthrough_round_trip_witness:
  "[''c.md'' \<mapsto> sample_canonical] ''c.md'' = Some sample_canonical \<and>
   passthrough_canonical False False (readlines sample_canonical) \<and>
   format_file echo_formatter echo_toolchain [''c.md'' \<mapsto> sample_canonical] ''c.md'' ''img'' =
     Inr (''text'' @ nl @ fence @ ''bash'' @ nl @ ''ls -l'' @ nl @ fence @ nl @ ''more'' @ nl)"
proof -
  have a: "[''c.md'' \<mapsto> sample_canonical] ''c.md'' = Some sample_canonical" by simp
  have b: "passthrough_canonical False False (readlines sample_canonical)" by code_simp
  have c: "rstrip (join nl (map rstrip (readlines sample_canonical))) @ nl =
           ''text'' @ nl @ fence @ ''bash'' @ nl @ ''ls -l'' @ nl @ fence @ nl @ ''more'' @ nl"
    by code_simp
  from passthrough_round_trip[where fs = "[''c.md'' \<mapsto> sample_canonical]"
      and filename = "''c.md''", OF a b, of echo_formatter echo_toolchain "''img''"]
  show ?thesis unfolding c using a b by (intro conjI)
qed

text \<open>
  C6, as the specification states it, fails. The file of \<open>sample_bash\<close> has no
  fence of a recognized language and no white space to trim, and \<open>format_file\<close>
  changes it: the header \<open>Bash\<close> comes back as \<open>bash\<close>.
\<close>

theorem passthrough_header_changed_counterexample:
  "sample_bash ''b.md'' = Some (fence @ ''Bash'' @ nl @ ''ls'' @ nl @ fence @ nl) \<and>
   \<not> startswith (lower (strip ''Bash'')) ''py'' \<and>
   \<not> startswith (lower (strip ''Bash'')) ''r'' \<and>
   rstrip (join nl (map rstrip (readlines (fence @ ''Bash'' @ nl @ ''ls'' @ nl @ fence @ nl)))) @ nl =
     fence @ ''Bash'' @ nl @ ''ls'' @ nl @ fence @ nl \<and>
   format_file echo_formatter echo_toolchain sample_bash ''b.md'' ''img'' =
     Inr (fence @ ''bash'' @ nl @ ''ls'' @ nl @ fence @ nl) \<and>
   fence @ ''bash'' @ nl @ ''ls'' @ nl @ fence @ nl \<noteq> fence @ ''Bash'' @ nl @ ''ls'' @ nl @ fence @ nl"
  by code_simp

subsection \<open>The lines of a text\<close>

lemma universal_newlines_append_nl:
  "universal_newlines (a @ CHR 0x0A # b) = universal_newlines (a @ [CHR 0x0A]) @ universal_newlines b"
proof (induction a rule: universal_newlines.induct)
  case 1
  show ?case by simp
next
  case (2 c s)
  show ?case
  proof (cases s)
    case Nil
    then show ?thesis by (simp add: nl_def)
  next
    case (Cons d t)
    with 2 show ?thesis by (cases "c = CHR 0x0D"; cases "d = CHR 0x0A") simp_all
  qed
qed

lemma universal_newlines_no_cr: "CHR 0x0D \<notin> set (universal_newlines s)"
  by (induction s rule: universal_newlines.induct) (auto simp: nl_def split: list.splits)

lemma universal_newlines_id: "CHR 0x0D \<notin> set s \<Longrightarrow> universal_newlines s = s"
  by (induction s rule: universal_newlines.induct) auto

lemma universal_newlines_snoc_nl: "\<exists>x. universal_newlines (a @ [CHR 0x0A]) = x @ [CHR 0x0A]"
proof (induction a rule: universal_newlines.induct)
  case 1
  show ?case by simp
next
  case (2 c s)
  show ?case
  proof (cases s)
    case Nil
    then show ?thesis by (simp add: nl_def)
  next
    case (Cons d t)
    with 2 show ?thesis by (cases "c = CHR 0x0D"; cases "d = CHR 0x0A") auto
  qed
qed

lemma iter_lines_append_nl:
  "iter_lines cur (x @ CHR 0x0A # y) = iter_lines cur (x @ [CHR 0x0A]) @ iter_lines [] y"
  by (induction x arbitrary: cur) auto

lemma iter_lines_line:
  "CHR 0x0A \<notin> set l \<Longrightarrow> iter_lines cur (l @ [CHR 0x0A]) = [cur @ l @ [CHR 0x0A]]"
  by (induction l arbitrary: cur) auto

lemma readlines_append_nl: "readlines (a @ nl @ b) = readlines (a @ nl) @ readlines b"
proof -
  obtain x where x: "universal_newlines (a @ [CHR 0x0A]) = x @ [CHR 0x0A]"
    using universal_newlines_snoc_nl by blast
  have "universal_newlines (a @ CHR 0x0A # b) = x @ CHR 0x0A # universal_newlines b"
    using universal_newlines_append_nl[of a b] x by simp
  then have "readlines (a @ nl @ b) = iter_lines [] (x @ CHR 0x0A # universal_newlines b)"
    by (simp add: readlines_def nl_def)
  also have "\<dots> = iter_lines [] (x @ [CHR 0x0A]) @ iter_lines [] (universal_newlines b)"
    by (rule iter_lines_append_nl)
  also have "\<dots> = readlines (a @ nl) @ readlines b"
    using x by (simp add: readlines_def nl_def)
  finally show ?thesis .
qed

lemma readlines_line:
  assumes "CHR 0x0A \<notin> set l" "CHR 0x0D \<notin> set l"
  shows "readlines (l @ nl) = [l @ nl]"
proof -
  from assms(2) have "universal_newlines (l @ nl) = l @ nl"
    by (intro universal_newlines_id) (simp add: nl_def)
  with assms(1) iter_lines_line[of l "[]"] show ?thesis by (simp add: readlines_def nl_def)
qed

lemma readlines_unlines:
  assumes "\<forall>l\<in>set ls. CHR 0x0A \<notin> set l \<and> CHR 0x0D \<notin> set l"
  shows "readlines (unlines ls) = map (\<lambda>l. l @ nl) ls"
  using assms
proof (induction ls)
  case Nil
  show ?case by (simp add: readlines_def)
next
  case (Cons l ls)
  then show ?case by (simp add: readlines_append_nl readlines_line)
qed

lemma iter_lines_ok:
  assumes "CHR 0x0A \<notin> set cur"
  shows "\<forall>l\<in>set (iter_lines cur s). CHR 0x0A \<notin> set (butlast l) \<and> set l \<subseteq> set cur \<union> set s"
  using assms
proof (induction s arbitrary: cur)
  case Nil
  then show ?case by (auto dest: in_set_butlastD)
next
  case (Cons c s)
  show ?case
  proof (cases "c = CHR 0x0A")
    case True
    have "\<forall>l\<in>set (iter_lines [] s). CHR 0x0A \<notin> set (butlast l) \<and> set l \<subseteq> set [] \<union> set s"
      by (rule Cons.IH) simp
    with True Cons.prems show ?thesis by auto
  next
    case False
    with Cons.prems have "CHR 0x0A \<notin> set (cur @ [c])" by simp
    from Cons.IH[OF this] False show ?thesis by auto
  qed
qed

lemma readlines_line_ok: "\<forall>raw\<in>set (readlines contents). line_ok raw"
proof
  fix raw assume "raw \<in> set (readlines contents)"
  with iter_lines_ok[of "[]" "universal_newlines contents"]
  have "CHR 0x0A \<notin> set (butlast raw)" and "set raw \<subseteq> set (universal_newlines contents)"
    by (auto simp: readlines_def)
  with universal_newlines_no_cr[of contents] show "line_ok raw"
    by (auto simp: line_ok_def)
qed

lemma rstrip_decomp: "\<exists>ws. s = rstrip s @ ws \<and> (\<forall>c\<in>set ws. isspace c)"
proof -
  have "rev s = takeWhile isspace (rev s) @ dropWhile isspace (rev s)" by simp
  then have "s = rstrip s @ rev (takeWhile isspace (rev s))"
    unfolding rstrip_def by (metis rev_append rev_rev_ident)
  moreover have "\<forall>c\<in>set (rev (takeWhile isspace (rev s))). isspace c"
    by (auto dest: set_takeWhileD)
  ultimately show ?thesis by blast
qed

lemma line_ok_rstrip:
  assumes "line_ok raw"
  shows "CHR 0x0A \<notin> set (rstrip raw) \<and> CHR 0x0D \<notin> set (rstrip raw)"
proof -
  obtain ws where ws: "raw = rstrip raw @ ws" using rstrip_decomp by blast
  then have sub: "set (rstrip raw) \<subseteq> set raw" by (metis set_append sup_ge1)
  have "CHR 0x0A \<notin> set (rstrip raw)"
  proof (cases "rstrip raw" rule: rev_cases)
    case Nil
    then show ?thesis by simp
  next
    case (snoc y c)
    have "rstrip (rstrip raw) = rstrip raw" by simp
    with snoc have "\<not> isspace c" by (simp add: rstrip_fixed_iff)
    then have c: "c \<noteq> CHR 0x0A" by auto
    from ws snoc have "raw = y @ c # ws" by simp
    then have "set y \<subseteq> set (butlast raw)"
      by (cases ws rule: rev_cases) (auto simp: butlast_append)
    with assms have "CHR 0x0A \<notin> set y" by (auto simp: line_ok_def)
    with c snoc show ?thesis by simp
  qed
  moreover from assms sub have "CHR 0x0D \<notin> set (rstrip raw)" by (auto simp: line_ok_def)
  ultimately show ?thesis by simp
qed

subsection \<open>Headers\<close>

lemma isspace_lower_char [simp]: "isspace (lower_char c) = isspace c"
  unfolding isspace_def lower_char_def Let_def by (auto simp: of_char_of)

lemma of_char_lower_char_low:
  "(of_char (lower_char c) :: nat) < 32 \<longleftrightarrow> (of_char c :: nat) < 32"
  "(of_char (lower_char c) :: nat) < 32 \<Longrightarrow> lower_char c = c"
  unfolding lower_char_def Let_def by (auto simp: of_char_of)

lemma lower_char_eq_nl [simp]: "lower_char c = CHR 0x0A \<longleftrightarrow> c = CHR 0x0A"
proof
  assume a: "lower_char c = CHR 0x0A"
  then have "(of_char (lower_char c) :: nat) < 32" by simp
  with of_char_lower_char_low(2) a show "c = CHR 0x0A" by metis
next
  assume "c = CHR 0x0A"
  then show "lower_char c = CHR 0x0A" by (simp add: lower_char_def)
qed

lemma lower_char_eq_cr [simp]: "lower_char c = CHR 0x0D \<longleftrightarrow> c = CHR 0x0D"
proof
  assume a: "lower_char c = CHR 0x0D"
  then have "(of_char (lower_char c) :: nat) < 32" by simp
  with of_char_lower_char_low(2) a show "c = CHR 0x0D" by metis
next
  assume "c = CHR 0x0D"
  then show "lower_char c = CHR 0x0D" by (simp add: lower_char_def)
qed

lemma set_lower_nl [simp]: "CHR 0x0A \<in> set (lower s) \<longleftrightarrow> CHR 0x0A \<in> set s"
  unfolding lower_def by (induction s) (auto simp: eq_commute[of "CHR 0x0A"])

lemma set_lower_cr [simp]: "CHR 0x0D \<in> set (lower s) \<longleftrightarrow> CHR 0x0D \<in> set s"
  unfolding lower_def by (induction s) (auto simp: eq_commute[of "CHR 0x0D"])

lemma rstrip_lower: "rstrip (lower s) = lower (rstrip s)"
  by (simp add: rstrip_def lower_def rev_map dropWhile_map comp_def)

lemma lstrip_lower: "lstrip (lower s) = lower (lstrip s)"
  by (simp add: lstrip_def lower_def dropWhile_map comp_def)

lemma strip_lower: "strip (lower s) = lower (strip s)"
  by (simp add: strip_def rstrip_lower lstrip_lower)

lemma set_rstrip: "set (rstrip s) \<subseteq> set s"
  by (auto simp: rstrip_def dest: set_dropWhileD)

lemma set_strip: "set (strip s) \<subseteq> set s"
  using set_rstrip by (auto simp: strip_def lstrip_def dest!: set_dropWhileD)

lemma rstrip_lstrip_fixed:
  assumes "rstrip x = x"
  shows "rstrip (lstrip x) = lstrip x"
proof (cases "lstrip x = []")
  case True
  then show ?thesis by simp
next
  case False
  have "x = takeWhile isspace x @ lstrip x" by (simp add: lstrip_def)
  with False have "last x = last (lstrip x)" by (metis last_appendR)
  moreover from False have "x \<noteq> []" by (auto simp: lstrip_def)
  ultimately show ?thesis using assms False by (simp add: rstrip_fixed_iff)
qed

lemma rstrip_strip [simp]: "rstrip (strip s) = strip s"
  by (simp add: strip_def rstrip_lstrip_fixed)

lemma strip_strip [simp]: "strip (strip s) = strip s"
proof -
  have "strip (strip s) = lstrip (strip s)" by (simp add: strip_def[of "strip s"])
  also have "\<dots> = strip s" by (simp add: strip_def lstrip_def)
  finally show ?thesis .
qed

lemma format_str_header:
  "format_str B S src (lower (strip p)) img = format_str B S src p img"
  by (simp add: format_str_def strip_lower lower_idem)

lemma startswith_refl [simp]: "startswith s s"
  by (simp add: startswith_def)

lemma rstrip_nl [simp]: "rstrip nl = []"
  using rstrip_append_nl[of "[]"] by simp

lemma fence_clean [simp]: "CHR 0x0A \<notin> set fence" "CHR 0x0D \<notin> set fence"
  by (simp_all add: fence_def)

lemma rstrip_fence_header: "rstrip h = h \<Longrightarrow> rstrip (fence @ h) = fence @ h"
  by (cases "h = []") (simp_all add: rstrip_append_fixed)

subsection \<open>Items that a second pass reproduces\<close>

lemma plain_replays:
  assumes "body_ok l"
  shows "replays B S img l"
proof -
  from assms have l: "CHR 0x0A \<notin> set l" "CHR 0x0D \<notin> set l" "rstrip l = l" "\<not> startswith l fence"
    by (simp_all add: body_ok_def)
  have "readlines (l @ nl) = [l @ nl]" using l(1,2) by (rule readlines_line)
  moreover have "scan_line B S img
      \<lparr>is_in_fence = False, fence_parameters = None, fenced_lines = [], final_lines = out\<rparr> (l @ nl) =
    Inr \<lparr>is_in_fence = False, fence_parameters = None, fenced_lines = [], final_lines = out @ [l]\<rparr>"
    for out
    using l(3,4) by (simp add: scan_line_def Let_def)
  ultimately show ?thesis using l(3) by (simp add: replays_def)
qed

lemma block_replays:
  assumes h: "CHR 0x0A \<notin> set h" "CHR 0x0D \<notin> set h" "rstrip h = h"
    and lines: "\<forall>l\<in>set (readlines (b @ nl)). \<not> startswith (rstrip l) fence"
    and fmt: "format_str B S (reread b) h img = Inr (fence @ h @ nl @ b @ nl @ fence)"
  shows "replays B S img (fence @ h @ nl @ b @ nl @ fence)"
proof -
  let ?item = "fence @ h @ nl @ b @ nl @ fence"
  let ?body = "map rstrip (readlines (b @ nl))"
  have "fence \<noteq> []" by (simp add: fence_def)
  then have fixed: "rstrip ?item = ?item"
    using rstrip_append_fixed[of fence "fence @ h @ nl @ b @ nl"] by simp
  have "?item @ nl = (fence @ h) @ nl @ (b @ nl @ (fence @ nl))" by simp
  then have "readlines (?item @ nl) =
               readlines ((fence @ h) @ nl) @ readlines (b @ nl @ (fence @ nl))"
    by (simp only: readlines_append_nl)
  also have "readlines (b @ nl @ (fence @ nl)) = readlines (b @ nl) @ readlines (fence @ nl)"
    by (rule readlines_append_nl)
  also have "readlines ((fence @ h) @ nl) = [(fence @ h) @ nl]"
    using h(1,2) by (intro readlines_line) simp_all
  also have "readlines (fence @ nl) = [fence @ nl]"
    by (intro readlines_line) simp_all
  finally have ls: "readlines (?item @ nl) = ((fence @ h) @ nl) # readlines (b @ nl) @ [fence @ nl]"
    by simp
  have scan: "scan_lines B S img
      \<lparr>is_in_fence = False, fence_parameters = None, fenced_lines = [], final_lines = out\<rparr>
      (readlines (?item @ nl)) =
    Inr \<lparr>is_in_fence = False, fence_parameters = None, fenced_lines = [],
         final_lines = out @ [?item]\<rparr>" for out
  proof -
    let ?st0 = "\<lparr>is_in_fence = False, fence_parameters = None, fenced_lines = [], final_lines = out\<rparr>"
    let ?st1 = "\<lparr>is_in_fence = True, fence_parameters = Some h, fenced_lines = [], final_lines = out\<rparr>"
    let ?st2 = "\<lparr>is_in_fence = True, fence_parameters = Some h, fenced_lines = ?body, final_lines = out\<rparr>"
    have line: "rstrip ((fence @ h) @ nl) = fence @ h"
      using rstrip_fence_header[OF h(3)] by (simp only: rstrip_append_nl)
    have "strip (fence @ h) = fence @ h"
      using strip_fence_line[of "fence @ h"] rstrip_fence_header[OF h(3)] by simp
    then have "drop 3 (strip (fence @ h)) = h" by (simp add: fence_def)
    then have s1: "scan_line B S img ?st0 ((fence @ h) @ nl) = Inr ?st1"
      unfolding scan_line_def Let_def line by simp
    have s2: "scan_lines B S img ?st1 (readlines (b @ nl)) = Inr ?st2"
      using scan_lines_body[of ?st1 "readlines (b @ nl)" B S img] lines by simp
    have "join nl ?body = reread b" by (simp add: reread_def)
    with fmt have s3: "scan_line B S img ?st2 (fence @ nl) =
        Inr \<lparr>is_in_fence = False, fence_parameters = None, fenced_lines = [],
             final_lines = out @ [?item]\<rparr>"
      by (simp add: scan_line_def Let_def)
    show ?thesis
      unfolding ls using s1 s2 s3 by (simp add: scan_lines_append)
  qed
  from fixed scan show ?thesis unfolding replays_def by blast
qed

lemma readlines_join:
  assumes "\<forall>l\<in>set fl. CHR 0x0A \<notin> set l \<and> CHR 0x0D \<notin> set l"
  shows "readlines (join nl fl @ nl) = map (\<lambda>l. l @ nl) (if fl = [] then [[]] else fl)"
proof (cases "fl = []")
  case True
  have "readlines ([] @ nl) = [[] @ nl]" by (rule readlines_line) simp_all
  with True show ?thesis by simp
next
  case False
  with assms show ?thesis by (simp add: join_nl_unlines readlines_unlines)
qed

lemma reread_join:
  assumes "\<forall>l\<in>set fl. body_ok l"
  shows "reread (join nl fl) = join nl fl"
    and "\<forall>l\<in>set (readlines (join nl fl @ nl)). \<not> startswith (rstrip l) fence"
proof -
  from assms have clean: "\<forall>l\<in>set fl. CHR 0x0A \<notin> set l \<and> CHR 0x0D \<notin> set l"
    by (simp add: body_ok_def)
  have fixed: "map (rstrip \<circ> (\<lambda>l. l @ nl)) fl = fl"
    using assms by (induction fl) (simp_all add: body_ok_def)
  show "reread (join nl fl) = join nl fl"
    unfolding reread_def readlines_join[OF clean]
    using fixed by (cases "fl = []") simp_all
  have "\<not> startswith [] fence" by (simp add: startswith_def fence_def)
  with assms show "\<forall>l\<in>set (readlines (join nl fl @ nl)). \<not> startswith (rstrip l) fence"
    unfolding readlines_join[OF clean] by (auto simp: body_ok_def)
qed

lemma passthrough_block_stable:
  assumes "\<not> startswith (lower (strip p)) ''py''" "\<not> startswith (lower (strip p)) ''r''"
  shows "block_stable B S img p src"
  using assms by (simp add: block_stable_def)

lemma rescans_replays:
  assumes h: "CHR 0x0A \<notin> set h" "CHR 0x0D \<notin> set h" "rstrip h = h"
    and stable: "rescans f y"
    and again: "\<And>y'. f (reread (rstrip y)) = Inr y' \<Longrightarrow>
                  format_str B S (reread (rstrip y)) h img = Inr (fence @ h @ nl @ rstrip y' @ nl @ fence)"
  shows "replays B S img (fence @ h @ nl @ rstrip y @ nl @ fence)"
proof -
  from stable have lines: "\<forall>l\<in>set (readlines (rstrip y @ nl)). \<not> startswith (rstrip l) fence"
    by (simp add: rescans_def list_all_iff)
  from stable obtain y' where y': "f (reread (rstrip y)) = Inr y'" "rstrip y' = rstrip y"
    by (auto simp: rescans_def split: sum.splits)
  from again[OF y'(1)] y'(2)
  have "format_str B S (reread (rstrip y)) h img = Inr (fence @ h @ nl @ rstrip y @ nl @ fence)"
    by simp
  from block_replays[OF h lines this] show ?thesis .
qed

lemma format_str_replays:
  assumes stable: "block_stable B S img p (join nl fl)"
    and body: "\<forall>l\<in>set fl. body_ok l"
    and p: "CHR 0x0A \<notin> set p" "CHR 0x0D \<notin> set p"
    and fmt: "format_str B S (join nl fl) p img = Inr block"
  shows "replays B S img block"
proof -
  let ?h = "lower (strip p)"
  let ?src = "join nl fl"
  have h: "CHR 0x0A \<notin> set ?h" "CHR 0x0D \<notin> set ?h" "rstrip ?h = ?h"
    using p set_strip[of p] by (auto simp: rstrip_lower)
  have hh: "lower (strip ?h) = ?h" by (simp add: strip_lower lower_idem)
  show ?thesis
  proof (cases "startswith ?h ''py''")
    case True
    with fmt obtain y where y: "B ?src = Inr y" and block: "block = fence @ ?h @ nl @ rstrip y @ nl @ fence"
      by (auto simp: format_str_def split: sum.splits)
    from stable True y have "rescans B y" by (simp add: block_stable_def)
    moreover have "format_str B S (reread (rstrip y)) ?h img =
                     Inr (fence @ ?h @ nl @ rstrip y' @ nl @ fence)"
      if "B (reread (rstrip y)) = Inr y'" for y'
      using that True hh by (simp add: format_str_def)
    ultimately have "replays B S img (fence @ ?h @ nl @ rstrip y @ nl @ fence)"
      using h by (intro rescans_replays[where f = B]) simp_all
    with block show ?thesis by simp
  next
    case not_py: False
    show ?thesis
    proof (cases "startswith ?h ''r''")
      case True
      with not_py fmt obtain y where y: "S img ?src = Inr y"
        and block: "block = fence @ ?h @ nl @ rstrip y @ nl @ fence"
        by (auto simp: format_str_def split: sum.splits)
      from stable True not_py y have "rescans (S img) y" by (simp add: block_stable_def)
      moreover have "format_str B S (reread (rstrip y)) ?h img =
                       Inr (fence @ ?h @ nl @ rstrip y' @ nl @ fence)"
        if "S img (reread (rstrip y)) = Inr y'" for y'
        using that True not_py hh by (simp add: format_str_def)
      ultimately have "replays B S img (fence @ ?h @ nl @ rstrip y @ nl @ fence)"
        using h by (intro rescans_replays[where f = "S img"]) simp_all
      with block show ?thesis by simp
    next
      case False
      with not_py fmt have block: "block = fence @ ?h @ nl @ ?src @ nl @ fence"
        by (auto simp: format_str_def)
      have "format_str B S (reread ?src) ?h img = Inr (fence @ ?h @ nl @ ?src @ nl @ fence)"
        using False not_py hh reread_join(1)[OF body] by (simp add: format_str_def)
      from block_replays[OF h reread_join(2)[OF body] this] block show ?thesis by simp
    qed
  qed
qed

subsection \<open>The first pass\<close>

text \<open>
  Every item of the output of a scan of lines read from a file is one that a
  second pass reproduces, when the fenced blocks that the scan closes are stable
  under the scan.
\<close>

lemma scan_line_replays:
  assumes raw: "line_ok raw"
    and step: "scan_line B S img st raw = Inr st'"
    and stable: "list_all (\<lambda>(p, src). block_stable B S img p src)
                   (fenced_blocks (if is_in_fence st then fence_parameters st else None)
                      (fenced_lines st) (raw # ls))"
    and params: "is_in_fence st \<longrightarrow>
                   (\<exists>p. fence_parameters st = Some p \<and> CHR 0x0A \<notin> set p \<and> CHR 0x0D \<notin> set p)"
    and outside: "\<not> is_in_fence st \<longrightarrow> fenced_lines st = []"
    and body: "\<forall>l\<in>set (fenced_lines st). body_ok l"
    and items: "\<forall>it\<in>set (final_lines st). replays B S img it"
  shows "list_all (\<lambda>(p, src). block_stable B S img p src)
           (fenced_blocks (if is_in_fence st' then fence_parameters st' else None)
              (fenced_lines st') ls) \<and>
         (is_in_fence st' \<longrightarrow>
           (\<exists>p. fence_parameters st' = Some p \<and> CHR 0x0A \<notin> set p \<and> CHR 0x0D \<notin> set p)) \<and>
         (\<not> is_in_fence st' \<longrightarrow> fenced_lines st' = []) \<and>
         (\<forall>l\<in>set (fenced_lines st'). body_ok l) \<and>
         (\<forall>it\<in>set (final_lines st'). replays B S img it)"
proof -
  let ?line = "rstrip raw"
  from line_ok_rstrip[OF raw] have clean: "CHR 0x0A \<notin> set ?line" "CHR 0x0D \<notin> set ?line"
    by simp_all
  show ?thesis
  proof (cases "startswith ?line fence")
    case fence_line: True
    show ?thesis
    proof (cases "is_in_fence st")
      case True
      with params obtain p where p: "fence_parameters st = Some p"
        "CHR 0x0A \<notin> set p" "CHR 0x0D \<notin> set p"
        by auto
      from step True fence_line p(1) obtain block
        where fmt: "format_str B S (join nl (fenced_lines st)) p img = Inr block"
          and st': "st' = st\<lparr>final_lines := final_lines st @ [block], is_in_fence := False,
                               fenced_lines := [], fence_parameters := None\<rparr>"
        by (auto simp: scan_line_def Let_def split: sum.splits)
      from stable True fence_line p(1)
      have this_block: "block_stable B S img p (join nl (fenced_lines st))"
        and rest: "list_all (\<lambda>(p, src). block_stable B S img p src) (fenced_blocks None [] ls)"
        by (simp_all add: Let_def)
      from format_str_replays[OF this_block body p(2,3) fmt] have "replays B S img block" .
      with items st' rest show ?thesis by simp
    next
      case False
      with step fence_line have
        st': "st' = st\<lparr>is_in_fence := True, fence_parameters := Some (drop 3 (strip ?line))\<rparr>"
        by (simp add: scan_line_def Let_def)
      from outside False have empty: "fenced_lines st = []" by simp
      from stable False fence_line empty
      have rest: "list_all (\<lambda>(p, src). block_stable B S img p src)
                    (fenced_blocks (Some (drop 3 (strip ?line))) [] ls)"
        by (simp add: Let_def)
      have "set (drop 3 (strip ?line)) \<subseteq> set ?line"
        using set_strip[of ?line] set_drop_subset[of 3 "strip ?line"] by blast
      with clean have "CHR 0x0A \<notin> set (drop 3 (strip ?line))" "CHR 0x0D \<notin> set (drop 3 (strip ?line))"
        by blast+
      with st' body items rest empty show ?thesis by simp
    qed
  next
    case plain: False
    with clean have ok: "body_ok ?line" by (simp add: body_ok_def)
    show ?thesis
    proof (cases "is_in_fence st")
      case True
      with params obtain p where p: "fence_parameters st = Some p" by auto
      from True step plain have st': "st' = st\<lparr>fenced_lines := fenced_lines st @ [?line]\<rparr>"
        by (simp add: scan_line_def Let_def)
      from stable True plain p
      have rest: "list_all (\<lambda>(p, src). block_stable B S img p src)
                    (fenced_blocks (Some p) (fenced_lines st @ [?line]) ls)"
        by (simp add: Let_def)
      with st' True p params body items ok show ?thesis by simp
    next
      case False
      with step plain have st': "st' = st\<lparr>final_lines := final_lines st @ [?line]\<rparr>"
        by (simp add: scan_line_def Let_def)
      from outside False have empty: "fenced_lines st = []" by simp
      from stable False plain empty
      have rest: "list_all (\<lambda>(p, src). block_stable B S img p src) (fenced_blocks None [] ls)"
        by (simp add: Let_def)
      from plain_replays[OF ok] have "replays B S img ?line" .
      with st' False body items rest empty show ?thesis by simp
    qed
  qed
qed

lemma scan_lines_replays:
  assumes raw: "\<forall>raw\<in>set ls. line_ok raw"
    and scan: "scan_lines B S img st ls = Inr st'"
    and stable: "list_all (\<lambda>(p, src). block_stable B S img p src)
                   (fenced_blocks (if is_in_fence st then fence_parameters st else None)
                      (fenced_lines st) ls)"
    and params: "is_in_fence st \<longrightarrow>
                   (\<exists>p. fence_parameters st = Some p \<and> CHR 0x0A \<notin> set p \<and> CHR 0x0D \<notin> set p)"
    and outside: "\<not> is_in_fence st \<longrightarrow> fenced_lines st = []"
    and body: "\<forall>l\<in>set (fenced_lines st). body_ok l"
    and items: "\<forall>it\<in>set (final_lines st). replays B S img it"
  shows "\<forall>it\<in>set (final_lines st'). replays B S img it"
  using raw scan stable params outside body items
proof (induction ls arbitrary: st)
  case Nil
  then show ?case by simp
next
  case (Cons raw ls)
  from Cons.prems(2) obtain st1 where s1: "scan_line B S img st raw = Inr st1"
    and rest: "scan_lines B S img st1 ls = Inr st'"
    by (auto split: sum.splits)
  from Cons.prems(1) have r: "line_ok raw" and rs: "\<forall>raw\<in>set ls. line_ok raw" by simp_all
  from scan_line_replays[OF r s1 Cons.prems(3) Cons.prems(4) Cons.prems(5) Cons.prems(6)
      Cons.prems(7)]
  have inv: "list_all (\<lambda>(p, src). block_stable B S img p src)
               (fenced_blocks (if is_in_fence st1 then fence_parameters st1 else None)
                  (fenced_lines st1) ls)"
    "is_in_fence st1 \<longrightarrow>
       (\<exists>p. fence_parameters st1 = Some p \<and> CHR 0x0A \<notin> set p \<and> CHR 0x0D \<notin> set p)"
    "\<not> is_in_fence st1 \<longrightarrow> fenced_lines st1 = []"
    "\<forall>l\<in>set (fenced_lines st1). body_ok l"
    "\<forall>it\<in>set (final_lines st1). replays B S img it"
    by blast+
  show ?case by (rule Cons.IH[OF rs rest inv])
qed

subsection \<open>The second pass\<close>

lemma replay_items:
  assumes "\<forall>it\<in>set items. replays B S img it"
  shows "scan_lines B S img
           \<lparr>is_in_fence = False, fence_parameters = None, fenced_lines = [], final_lines = out\<rparr>
           (readlines (unlines items)) =
         Inr \<lparr>is_in_fence = False, fence_parameters = None, fenced_lines = [],
              final_lines = out @ items\<rparr>"
  using assms
proof (induction items arbitrary: out)
  case Nil
  show ?case by (simp add: readlines_def)
next
  case (Cons it items)
  from Cons.prems have one: "scan_lines B S img
      \<lparr>is_in_fence = False, fence_parameters = None, fenced_lines = [], final_lines = out\<rparr>
      (readlines (it @ nl)) =
    Inr \<lparr>is_in_fence = False, fence_parameters = None, fenced_lines = [],
         final_lines = out @ [it]\<rparr>"
    by (simp add: replays_def)
  from Cons.prems have "\<forall>it\<in>set items. replays B S img it" by simp
  from Cons.IH[OF this, of "out @ [it]"] one
  show ?case by (simp add: readlines_append_nl scan_lines_append)
qed

text \<open>Right-trimming the joined items drops the empty items at the end.\<close>

lemma rstrip_join_items:
  assumes "\<forall>it\<in>set items. rstrip it = it"
  shows "\<exists>kept. set kept \<subseteq> set items \<and> rstrip (join nl items) = join nl kept \<and>
           (kept = [] \<or> last kept \<noteq> [])"
  using assms
proof (induction items rule: rev_induct)
  case Nil
  show ?case by (intro exI[of _ "[]"]) simp
next
  case (snoc it items)
  have j: "join nl (items @ [it]) = (if items = [] then it else join nl items @ nl @ it)"
    by (induction nl items rule: join.induct) simp_all
  show ?case
  proof (cases "it = []")
    case True
    from snoc obtain kept where k: "set kept \<subseteq> set items" "rstrip (join nl items) = join nl kept"
      "kept = [] \<or> last kept \<noteq> []"
      by auto
    have "rstrip (join nl (items @ [it])) = rstrip (join nl items)"
      using True j rstrip_append_nl[of "join nl items"] by (cases "items = []") simp_all
    with k show ?thesis by (intro exI[of _ kept]) auto
  next
    case False
    from snoc.prems have "rstrip it = it" by simp
    with False have "rstrip (a @ it) = a @ it" for a by (rule rstrip_append_fixed)
    from this[of "join nl items @ nl"] this[of "[]"] j
    have "rstrip (join nl (items @ [it])) = join nl (items @ [it])" by (cases "items = []") simp_all
    with False show ?thesis by (intro exI[of _ "items @ [it]"]) simp
  qed
qed

lemma second_pass:
  assumes "\<forall>it\<in>set items. replays B S img it"
  shows "\<exists>st. scan_lines B S img init_state (readlines (rstrip (join nl items) @ nl)) = Inr st \<and>
           \<not> is_in_fence st \<and>
           rstrip (join nl (final_lines st)) = rstrip (join nl items)"
proof -
  from assms have "\<forall>it\<in>set items. rstrip it = it" by (simp add: replays_def)
  from rstrip_join_items[OF this] obtain kept where k: "set kept \<subseteq> set items"
    "rstrip (join nl items) = join nl kept" "kept = [] \<or> last kept \<noteq> []"
    by blast
  show ?thesis
  proof (cases "kept = []")
    case True
    have "readlines ([] @ nl) = [[] @ nl]" by (rule readlines_line) simp_all
    then have "scan_lines B S img init_state (readlines (rstrip (join nl items) @ nl)) =
                 Inr (init_state\<lparr>final_lines := [[]]\<rparr>)"
      using True k(2)
      by (simp add: scan_line_def Let_def init_state_def startswith_def fence_def)
    with True k(2) show ?thesis by (simp add: init_state_def)
  next
    case False
    from k(1) assms have "\<forall>it\<in>set kept. replays B S img it" by blast
    from replay_items[OF this, of "[]"] False k(2)
    have "scan_lines B S img init_state (readlines (rstrip (join nl items) @ nl)) =
            Inr \<lparr>is_in_fence = False, fence_parameters = None, fenced_lines = [],
                 final_lines = kept\<rparr>"
      by (simp add: join_nl_unlines init_state_def)
    moreover have "rstrip (join nl kept) = rstrip (join nl items)"
      using k(2) rstrip_idem[of "join nl items"] by simp
    ultimately show ?thesis by simp
  qed
qed

lemma rstrip_join_snoc_empty: "rstrip (join nl (items @ [[]])) = rstrip (join nl items)"
proof -
  have "join nl (items @ [[]]) = (if items = [] then [] else join nl items @ nl)"
    by (induction nl items rule: join.induct) simp_all
  then show ?thesis by simp
qed

text \<open>
  C7, as the code has it. When every fenced block of the file is stable under the
  scan (what a formatter returns for a block has no line that starts with the fence
  marker, and the formatter returns the same right-trimmed text for what the
  scanner rereads of it; the blocks of other languages need nothing),
  \<open>format_file\<close> on a file that holds what \<open>format_file\<close> returned returns the
  same text, and so it does on the file that \<open>style_command\<close> writes, which holds
  one more newline.
\<close>

theorem format_file_idempotent:
  assumes "fs filename = Some contents"
    and "formats_stably black styler r_docker_image contents"
    and "format_file black styler fs filename r_docker_image = Inr out"
  shows "format_file black styler (fs(filename \<mapsto> out)) filename r_docker_image = Inr out \<and>
         format_file black styler (fs(filename \<mapsto> out @ nl)) filename r_docker_image = Inr out"
proof -
  from assms(1,3) obtain st
    where scan: "scan_lines black styler r_docker_image init_state (readlines contents) = Inr st"
      and out: "out = rstrip (join nl (final_lines st)) @ nl"
    by (auto simp: format_file_def split: sum.splits)
  have "\<forall>it\<in>set (final_lines st). replays black styler r_docker_image it"
    using readlines_line_ok scan
  proof (rule scan_lines_replays)
    show "list_all (\<lambda>(p, src). block_stable black styler r_docker_image p src)
            (fenced_blocks (if is_in_fence init_state then fence_parameters init_state else None)
               (fenced_lines init_state) (readlines contents))"
      using assms(2) by (simp add: formats_stably_def init_state_def)
  qed (simp_all add: init_state_def)
  from second_pass[OF this] obtain st2
    where s2: "scan_lines black styler r_docker_image init_state (readlines out) = Inr st2"
      and outside: "\<not> is_in_fence st2"
      and same: "rstrip (join nl (final_lines st2)) = rstrip (join nl (final_lines st))"
    unfolding out by blast
  from s2 same out
  have one: "format_file black styler (fs(filename \<mapsto> out)) filename r_docker_image = Inr out"
    by (simp add: format_file_def)
  have "readlines ([] @ nl) = [[] @ nl]" by (rule readlines_line) simp_all
  then have "readlines (out @ nl) = readlines out @ [nl]"
    unfolding out using readlines_append_nl[of "rstrip (join nl (final_lines st))" nl] by simp
  moreover have "scan_line black styler r_docker_image st2 nl =
                   Inr (st2\<lparr>final_lines := final_lines st2 @ [[]]\<rparr>)"
    using outside by (simp add: scan_line_def Let_def startswith_def fence_def)
  ultimately have "scan_lines black styler r_docker_image init_state (readlines (out @ nl)) =
                     Inr (st2\<lparr>final_lines := final_lines st2 @ [[]]\<rparr>)"
    using s2 by (simp add: scan_lines_append)
  with same out
  have "format_file black styler (fs(filename \<mapsto> out @ nl)) filename r_docker_image = Inr out"
    by (simp add: format_file_def rstrip_join_snoc_empty)
  with one show ?thesis by simp
qed

theorem format_file_idempotent_witness:
  "sample_mixed ''m.md'' = Some sample_mixed_text \<and>
   formats_stably sample_black echo_toolchain ''img'' sample_mixed_text \<and>
   format_file sample_black echo_toolchain sample_mixed ''m.md'' ''img'' =
     Inr (''Some text'' @ nl @ fence @ ''py'' @ nl @ ''x = 1'' @ nl @ fence @ nl @
          ''More text'' @ nl @ fence @ ''r'' @ nl @ ''y <- 2'' @ nl @ fence @ nl @
          fence @ ''bash'' @ nl @ ''ls'' @ nl @ fence @ nl) \<and>
   format_file sample_black echo_toolchain
     (sample_mixed(''m.md'' \<mapsto>
        ''Some text'' @ nl @ fence @ ''py'' @ nl @ ''x = 1'' @ nl @ fence @ nl @
        ''More text'' @ nl @ fence @ ''r'' @ nl @ ''y <- 2'' @ nl @ fence @ nl @
        fence @ ''bash'' @ nl @ ''ls'' @ nl @ fence @ nl)) ''m.md'' ''img'' =
     Inr (''Some text'' @ nl @ fence @ ''py'' @ nl @ ''x = 1'' @ nl @ fence @ nl @
          ''More text'' @ nl @ fence @ ''r'' @ nl @ ''y <- 2'' @ nl @ fence @ nl @
          fence @ ''bash'' @ nl @ ''ls'' @ nl @ fence @ nl)"
proof -
  have a: "sample_mixed ''m.md'' = Some sample_mixed_text" by (simp add: sample_mixed_def)
  have b: "formats_stably sample_black echo_toolchain ''img'' sample_mixed_text" by code_simp
  have c: "format_file sample_black echo_toolchain sample_mixed ''m.md'' ''img'' =
     Inr (''Some text'' @ nl @ fence @ ''py'' @ nl @ ''x = 1'' @ nl @ fence @ nl @
          ''More text'' @ nl @ fence @ ''r'' @ nl @ ''y <- 2'' @ nl @ fence @ nl @
          fence @ ''bash'' @ nl @ ''ls'' @ nl @ fence @ nl)"
    by code_simp
  from format_file_idempotent[where fs = sample_mixed and filename = "''m.md''", OF a b c]
  show ?thesis by (intro conjI a b c) simp
qed

text \<open>The formatter of the next instance is idempotent.\<close>

lemma docstring_black_idempotent:
  "docstring_black src = Inr out \<Longrightarrow> docstring_black out = Inr out"
  by (auto simp: docstring_black_def split: if_splits)

text \<open>
  C7, as the specification states it, fails. The Python block of the file is a
  module docstring whose middle line is an indented fence marker, so the scanner
  takes that line into the block. The formatter returns the docstring without the
  indentation; it is idempotent. In the output the marker stands at the start of
  its line: the second pass reads it as the end of the block, hands the opening
  quotes alone to the formatter, and ends with the formatter's exception instead of
  the same text.
\<close>

theorem second_pass_differs_counterexample:
  "format_file docstring_black echo_toolchain sample_docstring ''d.md'' ''img'' =
     Inr (fence @ ''py'' @ nl @ triple_quote @ nl @ fence @ nl @ triple_quote @ nl @ fence @ nl) \<and>
   format_file docstring_black echo_toolchain
     (sample_docstring(''d.md'' \<mapsto>
        fence @ ''py'' @ nl @ triple_quote @ nl @ fence @ nl @ triple_quote @ nl @ fence @ nl))
     ''d.md'' ''img'' = Inl (FormatError triple_quote)"
  by code_simp

end
